theory Spec2Isabelle
  imports Main "HOL-Library.Word"
begin

unbundle bit_operations_syntax

section \<open>The memsys5 size round-up (mem0.c)\<close>

text \<open>
  \<^verbatim>\<open>static int _BlockSize[32]\<close> is a zero-initialised table of 32 C ints. The part of
  \<^verbatim>\<open>memsys5Init\<close> that fills it is
  \<^verbatim>\<open>long long size = mem5.szAtom; int i = 0;
  while (size < 0x40000000) { _BlockSize[i++] = (int)size; size *= 2; }\<close>
  A store beyond the last slot is undefined behaviour in C; the model returns \<open>None\<close> there.
  The routine never clears the table, so it overwrites the slots it reaches and leaves the other
  slots as they were before the call: the table before the call is an argument of the model.
  \<open>BlockSize_static\<close> is the table before the first initialisation.
\<close>

function fill_BlockSize :: "int list \<Rightarrow> nat \<Rightarrow> int \<Rightarrow> int list option" where
  "fill_BlockSize tbl i sz =
     (if sz < 0x40000000
      then (if i < length tbl then fill_BlockSize (tbl[i := sz]) (i + 1) (sz * 2) else None)
      else Some tbl)"
  by pat_completeness auto
termination
  by (relation "measure (\<lambda>(tbl, i, sz). length tbl - i)") auto

declare fill_BlockSize.simps [simp del]

definition BlockSize_static :: "int list" where
  "BlockSize_static = replicate 32 0"

definition memsys5Init_BlockSize :: "int list \<Rightarrow> int \<Rightarrow> int list option" where
  "memsys5Init_BlockSize tbl szAtom = fill_BlockSize tbl 0 szAtom"

text \<open>
  The table-based \<^verbatim>\<open>memsys5Roundup\<close>:
  \<^verbatim>\<open>if( n > 0x40000000 ) return 0;
  int i = 0; while (_BlockSize[i++]<n); return _BlockSize[i-1];\<close>
  Reading \<^verbatim>\<open>_BlockSize[i]\<close> with \<open>i\<close> beyond the table is undefined behaviour: \<open>None\<close>.
\<close>

function scan_BlockSize :: "int list \<Rightarrow> int \<Rightarrow> nat \<Rightarrow> int option" where
  "scan_BlockSize tbl n i =
     (if i < length tbl
      then (if tbl ! i < n then scan_BlockSize tbl n (i + 1) else Some (tbl ! i))
      else None)"
  by pat_completeness auto
termination
  by (relation "measure (\<lambda>(tbl, n, i). length tbl - i)") auto

declare scan_BlockSize.simps [simp del]

definition memsys5Roundup :: "int list \<Rightarrow> int \<Rightarrow> int option" where
  "memsys5Roundup tbl n = (if n > 0x40000000 then Some 0 else scan_BlockSize tbl n 0)"

text \<open>
  The loop-based version that the table replaces (kept as a comment in mem0.c):
  \<^verbatim>\<open>if( n > 0x40000000 ) return 0;
  for(iFullSz=mem5.szAtom; iFullSz<n; iFullSz *= 2); return iFullSz;\<close>
  The loop need not end (for \<open>szAtom \<le> 0\<close> it does not), so not returning is \<open>None\<close>.
\<close>

partial_function (option) roundup_loop :: "int \<Rightarrow> int \<Rightarrow> int option" where
  "roundup_loop iFullSz n = (if iFullSz < n then roundup_loop (iFullSz * 2) n else Some iFullSz)"

declare roundup_loop.simps [code]

definition memsys5Roundup_loop :: "int \<Rightarrow> int \<Rightarrow> int option" where
  "memsys5Roundup_loop szAtom n = (if n > 0x40000000 then Some 0 else roundup_loop szAtom n)"

section \<open>The pager: data model (pager-struct, PCacher-struct)\<close>

type_synonym u8 = "8 word"
type_synonym u32 = "32 word"
type_synonym Pgno = "32 word"
type_synonym i64 = "64 word"
type_synonym addr = nat

text \<open>
  Result codes. The numeric values of the \<^verbatim>\<open>SQLITE_*\<close> codes are not in the source files at
  hand; the codes are the enumeration of the specification (error kinds \<open>OK\<close>, \<open>BUSY\<close>,
  \<open>LOCKED\<close>, \<open>NOMEM\<close>, \<open>READONLY\<close>, \<open>IOERR\<close> plus sub-kinds, \<open>CORRUPT\<close>, \<open>FULL\<close>,
  \<open>CANTOPEN\<close>, \<open>PROTOCOL\<close>). \<open>SQLITE_IOERR k\<close> is an I/O error of sub-kind \<open>k\<close>; its primary
  code (\<^verbatim>\<open>rc & 0xff\<close>) is \<^verbatim>\<open>SQLITE_IOERR\<close> for every \<open>k\<close>.
\<close>

datatype ioerr_kind =
  IOERR_PLAIN | IOERR_READ | IOERR_SHORT_READ | IOERR_WRITE | IOERR_FSYNC | IOERR_DIR_FSYNC
  | IOERR_TRUNCATE | IOERR_LOCK | IOERR_UNLOCK | IOERR_DELETE | IOERR_NOMEM

datatype rc =
  SQLITE_OK | SQLITE_BUSY | SQLITE_LOCKED | SQLITE_NOMEM | SQLITE_READONLY
  | SQLITE_IOERR ioerr_kind | SQLITE_CORRUPT | SQLITE_FULL | SQLITE_CANTOPEN | SQLITE_PROTOCOL

text \<open>
  \<^verbatim>\<open>PgHdr.flags\<close> is a \<^verbatim>\<open>u16\<close> bit mask of \<^verbatim>\<open>PGHDR_*\<close> bits whose values are not in the source
  files at hand. The mask is the set of the flags that are on; \<^verbatim>\<open>flags & PGHDR_X\<close> is
  membership of \<open>PGHDR_X\<close>.
\<close>

datatype pgflag =
  PGHDR_DIRTY | PGHDR_NEED_SYNC | PGHDR_DONT_WRITE | PGHDR_REUSE_UNLIKELY | PGHDR_WRITEABLE
  | PGHDR_MMAP

text \<open>
  \<^verbatim>\<open>struct PgHdr\<close>: the fields the two routines of pager-imp.c and pager-tool.c touch. A
  pointer to a \<^verbatim>\<open>PgHdr\<close> is an address in the page store below, \<^verbatim>\<open>NULL\<close> is \<open>None\<close>.
  \<open>pData\<close> is the content of the page buffer.
\<close>

record PgHdr =
  pData :: "u8 list"
  pDirty :: "addr option"
  pgno :: Pgno
  pageHash :: u32
  flags :: "pgflag set"

datatype pager_state =
  PAGER_OPEN | PAGER_READER | PAGER_WRITER_LOCKED | PAGER_WRITER_CACHEMOD | PAGER_WRITER_DBMOD
  | PAGER_WRITER_FINISHED | PAGER_ERROR

datatype lock_level =
  NO_LOCK | SHARED_LOCK | RESERVED_LOCK | PENDING_LOCK | EXCLUSIVE_LOCK | UNKNOWN_LOCK

definition SPILLFLAG_OFF :: u8 where "SPILLFLAG_OFF = 0x01"
definition SPILLFLAG_ROLLBACK :: u8 where "SPILLFLAG_ROLLBACK = 0x02"
definition SPILLFLAG_NOSYNC :: u8 where "SPILLFLAG_NOSYNC = 0x04"

text \<open>
  \<^verbatim>\<open>int aStat[4]\<close> holds "total cache hits, misses, writes, spills", in this order.
\<close>

definition PAGER_STAT_WRITE :: nat where "PAGER_STAT_WRITE = 2"
definition PAGER_STAT_SPILL :: nat where "PAGER_STAT_SPILL = 3"

text \<open>
  \<^verbatim>\<open>struct Pager\<close>: the members read or written by \<^verbatim>\<open>pagerStress\<close> and
  \<^verbatim>\<open>pager_write_pagelist\<close>. \<open>fdOpen\<close> is \<^verbatim>\<open>isOpen(pPager->fd)\<close>, \<open>pWal\<close> is
  \<^verbatim>\<open>pagerUseWal(pPager)\<close> (a write-ahead log is attached), \<open>pageSize\<close> is a C \<^verbatim>\<open>int\<close> read with
  \<open>sint\<close>, \<open>dbFileVers\<close> the 16 bytes of \<^verbatim>\<open>char dbFileVers[16]\<close>.
\<close>

record Pager =
  exclusiveMode :: bool
  tempFile :: bool
  eState :: pager_state
  eLock :: lock_level
  changeCountDone :: bool
  doNotSpill :: u8
  dbSize :: Pgno
  dbOrigSize :: Pgno
  dbFileSize :: Pgno
  dbHintSize :: Pgno
  errCode :: rc
  fdOpen :: bool
  dbFileVers :: "u8 list"
  pageSize :: u32
  aStat :: "nat \<Rightarrow> u32"
  pWal :: bool

text \<open>
  Calls that leave the two routines: to the VFS, to the page-cache manager and to pager
  routines whose bodies are not in the source files at hand. The trace of these calls is part
  of the state, so that "is called" and "is not called" are statements about it.
\<close>

datatype call =
  Call_subjournalPageIfRequired addr
  | Call_pagerWalFrames addr
  | Call_sqlite3JournalCreate
  | Call_syncJournal
  | Call_pagerOpentemp
  | Call_sqlite3OsFileControlHint i64
  | Call_sqlite3OsWrite "u8 list" u32 i64
  | Call_sqlite3BackupUpdate Pgno "u8 list"
  | Call_sqlite3PcacheMakeClean addr

text \<open>
  The state the routines run on: the pager, the store of cache entries (address to
  \<^verbatim>\<open>PgHdr\<close>), the content of the database file (byte offset to byte), the trace of outgoing
  calls, and the source lines of the \<^verbatim>\<open>assert\<close>s that did not hold (an \<^verbatim>\<open>assert\<close> changes
  nothing else: it is compiled out of a release build).
\<close>

record world =
  pager :: Pager
  pages :: "addr \<rightharpoonup> PgHdr"
  dbfile :: "int \<rightharpoonup> u8"
  calls :: "call list"
  failed_asserts :: "nat list"

text \<open>
  What the environment answers: the result codes of the calls whose bodies are elsewhere, the
  codec hook (\<open>None\<close>: no codec installed or compiled in; a hook returning \<open>None\<close> is the
  C hook returning 0), and whether \<^verbatim>\<open>SQLITE_ENABLE_BATCH_ATOMIC_WRITE\<close> is defined.
\<close>

record env =
  batch_atomic_write :: bool
  rc_JournalCreate :: rc
  rc_subjournal :: rc
  rc_WalFrames :: rc
  rc_syncJournal :: rc
  rc_Opentemp :: rc
  rc_OsWrite :: "i64 \<Rightarrow> rc"
  xCodec :: "(u8 list \<Rightarrow> Pgno \<Rightarrow> u8 list option) option"

definition assert_at :: "nat \<Rightarrow> bool \<Rightarrow> world \<Rightarrow> world" where
  "assert_at line c w = (if c then w else w\<lparr>failed_asserts := failed_asserts w @ [line]\<rparr>)"

definition log_call :: "call \<Rightarrow> world \<Rightarrow> world" where
  "log_call c w = w\<lparr>calls := calls w @ [c]\<rparr>"

definition upd_page :: "addr \<Rightarrow> (PgHdr \<Rightarrow> PgHdr) \<Rightarrow> world \<Rightarrow> world" where
  "upd_page a f w = w\<lparr>pages := (pages w)(a := map_option f (pages w a))\<rparr>"

definition upd_pager :: "(Pager \<Rightarrow> Pager) \<Rightarrow> world \<Rightarrow> world" where
  "upd_pager f w = w\<lparr>pager := f (pager w)\<rparr>"

definition pg_flags :: "world \<Rightarrow> addr \<Rightarrow> pgflag set" where
  "pg_flags w a = (case pages w a of None \<Rightarrow> {} | Some pg \<Rightarrow> flags pg)"

definition pg_data :: "world \<Rightarrow> addr \<Rightarrow> u8 list" where
  "pg_data w a = (case pages w a of None \<Rightarrow> [] | Some pg \<Rightarrow> pData pg)"

section \<open>Routines called by pager-imp.c whose bodies are elsewhere\<close>

text \<open>
  Modelled from the spec: \<^verbatim>\<open>NEVER(X)\<close>, a macro of sqliteInt.h that is not in the source files
  at hand. In a release build it is \<open>X\<close> itself (the condition is believed never to hold and
  is still tested, "as a safeguard against future changes").
\<close>

definition NEVER :: "bool \<Rightarrow> bool" where
  "NEVER x = x"

text \<open>
  Modelled from the spec: \<^verbatim>\<open>subjournalPageIfRequired\<close> (not in the source files at hand).
  It writes to the sub-journal only; its result code is the environment's.
\<close>

definition subjournalPageIfRequired :: "env \<Rightarrow> world \<Rightarrow> addr \<Rightarrow> rc \<times> world" where
  "subjournalPageIfRequired e w a = (rc_subjournal e, log_call (Call_subjournalPageIfRequired a) w)"

text \<open>
  Modelled from the spec: \<^verbatim>\<open>pagerWalFrames\<close> (not in the source files at hand), "in WAL mode
  append a log frame": it appends to the log file, not to the database file.
\<close>

definition pagerWalFrames :: "env \<Rightarrow> world \<Rightarrow> addr \<Rightarrow> rc \<times> world" where
  "pagerWalFrames e w a = (rc_WalFrames e, log_call (Call_pagerWalFrames a) w)"

text \<open>
  Modelled from the spec: \<^verbatim>\<open>sqlite3JournalCreate\<close> (not in the source files at hand); it
  acts on the journal file only.
\<close>

definition sqlite3JournalCreate :: "env \<Rightarrow> world \<Rightarrow> rc \<times> world" where
  "sqlite3JournalCreate e w = (rc_JournalCreate e, log_call Call_sqlite3JournalCreate w)"

text \<open>
  Modelled from the spec: \<^verbatim>\<open>syncJournal\<close> (not in the source files at hand). The state table
  has "WRITER_CACHEMOD to WRITER_DBMOD: first write to database file (non-WAL); journal
  synced", performed by \<^verbatim>\<open>syncJournal\<close>; in WRITER_DBMOD "an EXCLUSIVE or greater lock is
  held"; and NEED_SYNC marks "a dirty entry whose journal record has not yet been synced".
  So a successful sync leaves no cache entry with NEED_SYNC, the state WRITER_DBMOD and the
  lock EXCLUSIVE; a failed one returns its error and changes nothing.
\<close>

definition syncJournal :: "env \<Rightarrow> world \<Rightarrow> rc \<times> world" where
  "syncJournal e w =
     (let w1 = log_call Call_syncJournal w in
      if rc_syncJournal e = SQLITE_OK
      then (SQLITE_OK,
            w1\<lparr>pages := (\<lambda>a. map_option (\<lambda>pg. pg\<lparr>flags := flags pg - {PGHDR_NEED_SYNC}\<rparr>)
                                          (pages w1 a)),
               pager := (pager w1)\<lparr>eState := PAGER_WRITER_DBMOD, eLock := EXCLUSIVE_LOCK\<rparr>\<rparr>)
      else (rc_syncJournal e, w1))"

text \<open>
  Modelled from the spec: \<^verbatim>\<open>sqlite3PcacheMakeClean\<close> (not in the source files at hand):
  "clears DIRTY and NEED_SYNC, removes from dirty list". Only the flags of the entry are
  part of this model.
\<close>

definition sqlite3PcacheMakeClean :: "world \<Rightarrow> addr \<Rightarrow> world" where
  "sqlite3PcacheMakeClean w a =
     upd_page a (\<lambda>pg. pg\<lparr>flags := flags pg - {PGHDR_DIRTY, PGHDR_NEED_SYNC}\<rparr>)
       (log_call (Call_sqlite3PcacheMakeClean a) w)"

text \<open>
  Modelled from the spec: \<^verbatim>\<open>pager_error\<close> (not in the source files at hand). "The ERROR
  state is entered when an IO or disk-full error (including SQLITE_IOERR_NOMEM) occurs";
  "the error code is latched in errCode"; in PAGER_ERROR state errCode is "SQLITE_FULL,
  SQLITE_IOERR or one of the SQLITE_IOERR_XXX sub-codes". Every other code, \<open>SQLITE_OK\<close>
  included, is returned with the pager unchanged. \<open>io_or_full r\<close> is the test that the primary
  code of \<open>r\<close> is \<^verbatim>\<open>SQLITE_FULL\<close> or \<^verbatim>\<open>SQLITE_IOERR\<close>.
\<close>

fun io_or_full :: "rc \<Rightarrow> bool" where
  "io_or_full SQLITE_FULL = True"
| "io_or_full (SQLITE_IOERR k) = True"
| "io_or_full r = False"

definition pager_error :: "world \<Rightarrow> rc \<Rightarrow> rc \<times> world" where
  "pager_error w r =
     (if io_or_full r
      then (r, upd_pager (\<lambda>p. p\<lparr>errCode := r, eState := PAGER_ERROR\<rparr>) w)
      else (r, w))"

text \<open>
  Modelled from the spec: \<^verbatim>\<open>pagerOpentemp\<close> (not in the source files at hand): "if the pager
  is a temp-file pager and the actual file-system file is not yet open, it is created and
  opened". On success the file is open.
\<close>

definition pagerOpentemp :: "env \<Rightarrow> world \<Rightarrow> rc \<times> world" where
  "pagerOpentemp e w =
     (let w1 = log_call Call_pagerOpentemp w in
      if rc_Opentemp e = SQLITE_OK then (SQLITE_OK, upd_pager (\<lambda>p. p\<lparr>fdOpen := True\<rparr>) w1)
      else (rc_Opentemp e, w1))"

text \<open>
  Modelled from the spec: \<^verbatim>\<open>sqlite3Get4byte\<close> and \<^verbatim>\<open>put32bits\<close> (not in the source files at
  hand): "all multibyte integers are big-endian".
\<close>

definition put32bits :: "u32 \<Rightarrow> u8 list" where
  "put32bits v = [ucast (drop_bit 24 v), ucast (drop_bit 16 v), ucast (drop_bit 8 v), ucast v]"

fun sqlite3Get4byte :: "u8 list \<Rightarrow> u32" where
  "sqlite3Get4byte (a # b # c # d # rest) =
     push_bit 24 (ucast a) OR push_bit 16 (ucast b) OR push_bit 8 (ucast c) OR ucast d"
| "sqlite3Get4byte _ = 0"

text \<open>
  Modelled from the spec: \<^verbatim>\<open>pager_write_changecounter\<close> (not in the source files at hand).
  "Bytes 24-27 form a monotonically advancing counter"; "the file change counter is
  incremented when the database is changed"; \<^verbatim>\<open>Pager.dbFileVers\<close> is the cached copy of
  bytes 24-39 of page 1 as last read from or written to the file. The routine stores the
  cached counter plus one, big-endian, in bytes 24-27 of the page buffer.
\<close>

definition pager_write_changecounter :: "world \<Rightarrow> addr \<Rightarrow> world" where
  "pager_write_changecounter w a =
     upd_page a (\<lambda>pg. pg\<lparr>pData := take 24 (pData pg)
                                   @ put32bits (sqlite3Get4byte (dbFileVers (pager w)) + 1)
                                   @ drop 28 (pData pg)\<rparr>) w"

text \<open>
  Modelled from the spec: \<^verbatim>\<open>sqlite3OsWrite\<close>, the VFS operation \<open>write(file, buf, n, off)\<close>.
  The result code is the environment's, by offset. A successful write stores the first
  \<open>n\<close> bytes of the buffer at the byte offsets \<open>off, ..., off + n - 1\<close> of the database
  file; a failed one is taken to store nothing.
\<close>

definition store_bytes :: "(int \<rightharpoonup> u8) \<Rightarrow> int \<Rightarrow> u8 list \<Rightarrow> (int \<rightharpoonup> u8)" where
  "store_bytes f off bs =
     (\<lambda>x. if off \<le> x \<and> x < off + int (length bs) then Some (bs ! nat (x - off)) else f x)"

definition sqlite3OsWrite :: "env \<Rightarrow> world \<Rightarrow> u8 list \<Rightarrow> u32 \<Rightarrow> i64 \<Rightarrow> rc \<times> world" where
  "sqlite3OsWrite e w buf amt off =
     (let w1 = log_call (Call_sqlite3OsWrite buf amt off) w in
      if rc_OsWrite e off = SQLITE_OK
      then (SQLITE_OK,
            w1\<lparr>dbfile := store_bytes (dbfile w1) (sint off) (take (nat (sint amt)) buf)\<rparr>)
      else (rc_OsWrite e off, w1))"

text \<open>
  The macro \<^verbatim>\<open>CODEC2(P,D,N,X,E,O)\<close> of pager-struct: without a codec \<open>O = D\<close>; with one,
  \<open>O\<close> is the codec's output and \<open>E\<close> is run when that is 0.
\<close>

definition CODEC2 :: "env \<Rightarrow> u8 list \<Rightarrow> Pgno \<Rightarrow> u8 list option" where
  "CODEC2 e d n = (case xCodec e of None \<Rightarrow> Some d | Some f \<Rightarrow> f d n)"

section \<open>pager-tool.c: the page hash\<close>

text \<open>
  \<^verbatim>\<open>u32 hash = 0; for(i=0; i<nByte; i++) hash = (hash*1039) + pData[i];\<close>
  on the first \<open>nByte\<close> bytes of the buffer.
\<close>

definition pager_datahash :: "u32 \<Rightarrow> u8 list \<Rightarrow> u32" where
  "pager_datahash nByte d = foldl (\<lambda>hash b. hash * 1039 + ucast b) 0 (take (nat (sint nByte)) d)"

definition pager_pagehash :: "world \<Rightarrow> PgHdr \<Rightarrow> u32" where
  "pager_pagehash w pg = pager_datahash (pageSize (pager w)) (pData pg)"

definition pager_set_pagehash :: "world \<Rightarrow> addr \<Rightarrow> world" where
  "pager_set_pagehash w a = upd_page a (\<lambda>pg. pg\<lparr>pageHash := pager_pagehash w pg\<rparr>) w"

section \<open>pager-imp.c: pager\_write\_pagelist\<close>

text \<open>
  One turn of the loop \<^verbatim>\<open>while( rc==SQLITE_OK && pList )\<close> on the entry at \<open>a\<close>: the result
  is \<open>Continue rc w\<close> when the turn reaches \<^verbatim>\<open>pList = pList->pDirty\<close>, and \<open>Return rc w\<close> when
  the codec fails and the function returns \<^verbatim>\<open>SQLITE_NOMEM_BKPT\<close> at once. \<open>None\<close>: \<open>a\<close> is not
  the address of a cache entry.
\<close>

datatype step = Continue rc world | Return rc world

definition pagelist_step :: "env \<Rightarrow> world \<Rightarrow> addr \<Rightarrow> step option" where
  "pagelist_step e w a =
     (case pages w a of
        None \<Rightarrow> None
      | Some pg \<Rightarrow>
          Some
           (if pgno pg \<le> dbSize (pager w) \<and> PGHDR_DONT_WRITE \<notin> flags pg
            then
              (let offset = (ucast (pgno pg - 1) :: i64) * scast (pageSize (pager w));
                   w1 = assert_at 181 (PGHDR_NEED_SYNC \<notin> flags pg) w;
                   w2 = (if pgno pg = 1 then pager_write_changecounter w1 a else w1)
               in case CODEC2 e (pg_data w2 a) (pgno pg) of
                    None \<Rightarrow> Return SQLITE_NOMEM w2
                  | Some d \<Rightarrow>
                      (let (r, w3) = sqlite3OsWrite e w2 d (pageSize (pager w2)) offset;
                           w4 = (if pgno pg = 1
                                 then upd_pager (\<lambda>p. p\<lparr>dbFileVers := take 16 (drop 24 d)\<rparr>) w3
                                 else w3);
                           w5 = (if pgno pg > dbFileSize (pager w4)
                                 then upd_pager (\<lambda>p. p\<lparr>dbFileSize := pgno pg\<rparr>) w4
                                 else w4);
                           w6 = upd_pager (\<lambda>p. p\<lparr>aStat := (aStat p)
                                   (PAGER_STAT_WRITE := aStat p PAGER_STAT_WRITE + 1)\<rparr>) w5;
                           w7 = log_call (Call_sqlite3BackupUpdate (pgno pg) (pg_data w6 a)) w6
                       in Continue r (pager_set_pagehash w7 a)))
            else Continue SQLITE_OK (pager_set_pagehash w a)))"

text \<open>
  The loop. It follows \<^verbatim>\<open>pDirty\<close> pointers through the store, so on a cyclic chain it does
  not end, and on a dangling pointer the C is undefined: both are \<open>None\<close>.
\<close>

partial_function (option) pagelist_loop ::
    "env \<Rightarrow> rc \<Rightarrow> world \<Rightarrow> addr option \<Rightarrow> (rc \<times> world) option" where
  "pagelist_loop e r w pList =
     (if r = SQLITE_OK \<and> pList \<noteq> None
      then (case pagelist_step e w (the pList) of
              None \<Rightarrow> None
            | Some (Return r' w') \<Rightarrow> Some (r', w')
            | Some (Continue r' w') \<Rightarrow>
                (case pages w' (the pList) of
                   None \<Rightarrow> None
                 | Some pg' \<Rightarrow> pagelist_loop e r' w' (pDirty pg')))
      else Some (r, w))"

declare pagelist_loop.simps [code]

text \<open>
  \<^verbatim>\<open>pList->pDirty\<close> and \<^verbatim>\<open>pList->pgno\<close> as the size-hint test reads them; \<open>None\<close> when
  \<open>pList\<close> is \<^verbatim>\<open>NULL\<close> or dangling.
\<close>

definition deref :: "world \<Rightarrow> addr option \<Rightarrow> PgHdr option" where
  "deref w p = (case p of None \<Rightarrow> None | Some a \<Rightarrow> pages w a)"

text \<open>
  The part of \<^verbatim>\<open>pager_write_pagelist\<close> before the loop: the assertions, opening a temp file
  that is not yet open, and the size hint. The size-hint test reads \<^verbatim>\<open>pList->pDirty\<close> without a
  \<^verbatim>\<open>NULL\<close> test, so with \<^verbatim>\<open>rc==SQLITE_OK\<close> and \<^verbatim>\<open>dbHintSize<dbSize\<close> a \<^verbatim>\<open>NULL\<close> list is a
  null-pointer read: \<open>None\<close>.
\<close>

definition pagelist_prelude :: "env \<Rightarrow> world \<Rightarrow> addr option \<Rightarrow> (rc \<times> world) option" where
  "pagelist_prelude e w pList =
     (let wa = assert_at 141 (\<not> pWal (pager w)) w;
          wb = assert_at 142 (tempFile (pager wa) \<or> eState (pager wa) = PAGER_WRITER_DBMOD) wa;
          wc = assert_at 143 (eLock (pager wb) = EXCLUSIVE_LOCK) wb;
          wd = assert_at 144 (fdOpen (pager wc)
                 \<or> (case deref wc pList of None \<Rightarrow> False | Some pg \<Rightarrow> pDirty pg = None)) wc;
          (r, w1) = (if \<not> fdOpen (pager wd)
                     then pagerOpentemp e (assert_at 151 (tempFile (pager wd)) wd)
                     else (SQLITE_OK, wd));
          w2 = assert_at 158 (r \<noteq> SQLITE_OK \<or> fdOpen (pager w1)) w1
      in if r = SQLITE_OK \<and> dbHintSize (pager w2) < dbSize (pager w2)
         then (case deref w2 pList of
                 None \<Rightarrow> None
               | Some pg \<Rightarrow>
                   if pDirty pg \<noteq> None \<or> pgno pg > dbHintSize (pager w2)
                   then (let szFile = scast (pageSize (pager w2)) * (ucast (dbSize (pager w2)) :: i64);
                             w3 = log_call (Call_sqlite3OsFileControlHint szFile) w2;
                             w4 = upd_pager (\<lambda>p. p\<lparr>dbHintSize := dbSize p\<rparr>) w3
                         in Some (r, w4))
                   else Some (r, w2))
         else Some (r, w2))"

definition pager_write_pagelist :: "env \<Rightarrow> world \<Rightarrow> addr option \<Rightarrow> (rc \<times> world) option" where
  "pager_write_pagelist e w pList =
     (case pagelist_prelude e w pList of
        None \<Rightarrow> None
      | Some (r, w0) \<Rightarrow> pagelist_loop e r w0 pList)"

section \<open>pager-imp.c: pagerStress\<close>

text \<open>
  The two statements that open a spill, \<^verbatim>\<open>pPager->aStat[PAGER_STAT_SPILL]++; pPg->pDirty = 0;\<close>
\<close>

definition stress_begin :: "world \<Rightarrow> addr \<Rightarrow> world" where
  "stress_begin w a =
     upd_page a (\<lambda>pg. pg\<lparr>pDirty := None\<rparr>)
       (upd_pager (\<lambda>p. p\<lparr>aStat := (aStat p)
                     (PAGER_STAT_SPILL := aStat p PAGER_STAT_SPILL + 1)\<rparr>) w)"

text \<open>
  The end of the function:
  \<^verbatim>\<open>if( rc==SQLITE_OK ){ sqlite3PcacheMakeClean(pPg); } return pager_error(pPager, rc);\<close>
\<close>

definition stress_finish :: "world \<Rightarrow> addr \<Rightarrow> rc \<Rightarrow> rc \<times> world" where
  "stress_finish w a r =
     pager_error (if r = SQLITE_OK then sqlite3PcacheMakeClean w a else w) r"

text \<open>
  \<^verbatim>\<open>pagerStress(p, pPg)\<close> with \<open>pPg\<close> the entry at address \<open>a\<close>. \<open>None\<close>: \<open>a\<close> is not the
  address of a cache entry, or the write loop does not return.
\<close>

definition pagerStress :: "env \<Rightarrow> world \<Rightarrow> addr \<Rightarrow> (rc \<times> world) option" where
  "pagerStress e w a =
     (case pages w a of
        None \<Rightarrow> None
      | Some pg \<Rightarrow>
          (let w0 = assert_at 35 (PGHDR_DIRTY \<in> flags pg) w in
           if NEVER (errCode (pager w0) \<noteq> SQLITE_OK) then Some (SQLITE_OK, w0)
           else if doNotSpill (pager w0) \<noteq> 0
                   \<and> ((doNotSpill (pager w0) AND (SPILLFLAG_ROLLBACK OR SPILLFLAG_OFF)) \<noteq> 0
                       \<or> PGHDR_NEED_SYNC \<in> flags pg)
           then Some (SQLITE_OK, w0)
           else
             (let w2 = stress_begin w0 a
              in if pWal (pager w2)
                 then (let (r, w3) = subjournalPageIfRequired e w2 a;
                           (r', w4) = (if r = SQLITE_OK then pagerWalFrames e w3 a else (r, w3))
                       in Some (stress_finish w4 a r'))
                 else
                   (let (rj, w3) = (if batch_atomic_write e \<and> \<not> tempFile (pager w2)
                                    then sqlite3JournalCreate e w2 else (SQLITE_OK, w2))
                    in if rj \<noteq> SQLITE_OK then Some (pager_error w3 rj)
                       else
                         (let (r, w4) = (if PGHDR_NEED_SYNC \<in> pg_flags w3 a
                                            \<or> eState (pager w3) = PAGER_WRITER_CACHEMOD
                                         then syncJournal e w3 else (SQLITE_OK, w3))
                          in if r = SQLITE_OK
                             then (case pager_write_pagelist e
                                          (assert_at 90 (PGHDR_NEED_SYNC \<notin> pg_flags w4 a) w4)
                                          (Some a) of
                                     None \<Rightarrow> None
                                   | Some (r', w5) \<Rightarrow> Some (stress_finish w5 a r'))
                             else Some (stress_finish w4 a r))))))"

section \<open>Predicates used to state the results\<close>

text \<open>
  \<open>dirty_chain h p as\<close>: starting at pointer \<open>p\<close> and following \<^verbatim>\<open>pDirty\<close> in the store \<open>h\<close>
  one visits exactly the entries at the addresses \<open>as\<close>, in this order, and then \<^verbatim>\<open>NULL\<close>.
\<close>

fun dirty_chain :: "(addr \<rightharpoonup> PgHdr) \<Rightarrow> addr option \<Rightarrow> addr list \<Rightarrow> bool" where
  "dirty_chain h p [] = (p = None)"
| "dirty_chain h p (a # as) =
     (p = Some a \<and> (case h a of None \<Rightarrow> False | Some pg \<Rightarrow> dirty_chain h (pDirty pg) as))"

text \<open>The database-file writes of a trace: buffer, length and offset of each, in order.\<close>

fun os_writes :: "call list \<Rightarrow> (u8 list \<times> u32 \<times> i64) list" where
  "os_writes [] = []"
| "os_writes (Call_sqlite3OsWrite buf amt off # cs) = (buf, amt, off) # os_writes cs"
| "os_writes (c # cs) = os_writes cs"

text \<open>
  The write test of the loop body, \<^verbatim>\<open>pgno<=pPager->dbSize && 0==(pList->flags&PGHDR_DONT_WRITE)\<close>,
  and the offset \<^verbatim>\<open>(pgno-1)*(i64)pPager->pageSize\<close>, for the entry at an address.
\<close>

definition passes_write_test :: "world \<Rightarrow> addr \<Rightarrow> bool" where
  "passes_write_test w a =
     (case pages w a of
        None \<Rightarrow> False
      | Some pg \<Rightarrow> pgno pg \<le> dbSize (pager w) \<and> PGHDR_DONT_WRITE \<notin> flags pg)"

definition page_offset :: "world \<Rightarrow> addr \<Rightarrow> i64" where
  "page_offset w a =
     (case pages w a of
        None \<Rightarrow> 0
      | Some pg \<Rightarrow> ucast (pgno pg - 1) * scast (pageSize (pager w)))"

primrec step_rc :: "step \<Rightarrow> rc" where
  "step_rc (Continue r w) = r"
| "step_rc (Return r w) = r"

primrec step_world :: "step \<Rightarrow> world" where
  "step_world (Continue r w) = w"
| "step_world (Return r w) = w"

text \<open>
  The same loop over the list of addresses that the \<^verbatim>\<open>pDirty\<close> chain visits; it agrees with
  \<open>pagelist_loop\<close> whenever the chain is well formed (lemma \<open>pagelist_loop_chain\<close>).
\<close>

fun pagelist_run :: "env \<Rightarrow> rc \<Rightarrow> world \<Rightarrow> addr list \<Rightarrow> (rc \<times> world) option" where
  "pagelist_run e r w [] = Some (r, w)"
| "pagelist_run e r w (a # as) =
     (if r \<noteq> SQLITE_OK then Some (r, w)
      else (case pagelist_step e w a of
              None \<Rightarrow> None
            | Some (Return r' w') \<Rightarrow> Some (r', w')
            | Some (Continue r' w') \<Rightarrow> pagelist_run e r' w' as))"

text \<open>The part of the store that walking the list and the write test depend on.\<close>

definition links :: "(addr \<rightharpoonup> PgHdr) \<Rightarrow> addr \<Rightarrow> (addr option \<times> Pgno \<times> pgflag set) option" where
  "links h = (\<lambda>b. map_option (\<lambda>pg. (pDirty pg, pgno pg, flags pg)) (h b))"

text \<open>
  The buffer that the loop body hands to \<^verbatim>\<open>sqlite3OsWrite\<close> for the entry at \<open>a\<close>: the page
  content (for page 1 after \<^verbatim>\<open>pager_write_changecounter\<close>) put through \<^verbatim>\<open>CODEC2\<close>; \<open>None\<close> when
  the codec fails.
\<close>

definition write_buffer :: "env \<Rightarrow> world \<Rightarrow> addr \<Rightarrow> u8 list option" where
  "write_buffer e w a =
     (case pages w a of
        None \<Rightarrow> None
      | Some pg \<Rightarrow>
          CODEC2 e (pg_data (if pgno pg = 1 then pager_write_changecounter w a else w) a) (pgno pg))"

text \<open>The page number of the entry at an address (0, "no page", when there is no entry).\<close>

definition page_number :: "world \<Rightarrow> addr \<Rightarrow> Pgno" where
  "page_number w a = (case pages w a of None \<Rightarrow> 0 | Some pg \<Rightarrow> pgno pg)"

definition is_page1 :: "world \<Rightarrow> addr \<Rightarrow> bool" where
  "is_page1 w a = (case pages w a of None \<Rightarrow> False | Some pg \<Rightarrow> pgno pg = 1)"

text \<open>
  The write loop read as a rule on the list of entries and the state \<open>w\<close> before the call, to
  compare \<^verbatim>\<open>pager_write_pagelist\<close> with: the entries are taken in list order; an entry that fails
  the write test gets no write and the next entry is taken; an entry that passes it is written
  with the buffer, length and offset of the loop body; the first codec failure ends the
  sequence with \<^verbatim>\<open>SQLITE_NOMEM\<close> and no write for that entry; the first failed write ends it with
  the result code of that write; no entry after either is taken. The result is the list of
  writes (buffer, length, offset) and the result code.
\<close>

fun write_sequence :: "env \<Rightarrow> world \<Rightarrow> addr list \<Rightarrow> (u8 list \<times> u32 \<times> i64) list \<times> rc" where
  "write_sequence e w [] = ([], SQLITE_OK)"
| "write_sequence e w (a # as) =
     (if passes_write_test w a
      then (case write_buffer e w a of
              None \<Rightarrow> ([], SQLITE_NOMEM)
            | Some d \<Rightarrow>
                if rc_OsWrite e (page_offset w a) = SQLITE_OK
                then ((d, pageSize (pager w), page_offset w a) # fst (write_sequence e w as),
                      snd (write_sequence e w as))
                else ([(d, pageSize (pager w), page_offset w a)], rc_OsWrite e (page_offset w a)))
      else write_sequence e w as)"

text \<open>The calls a turn of the write loop makes: the VFS write and the backup update.\<close>

fun write_or_backup :: "call \<Rightarrow> bool" where
  "write_or_backup (Call_sqlite3OsWrite b n off) = True"
| "write_or_backup (Call_sqlite3BackupUpdate pn d) = True"
| "write_or_backup c = False"

text \<open>
  The refusal test of \<^verbatim>\<open>pagerStress\<close>,
  \<^verbatim>\<open>doNotSpill && ((doNotSpill & (SPILLFLAG_ROLLBACK|SPILLFLAG_OFF))!=0 || (flags & PGHDR_NEED_SYNC)!=0)\<close>,
  and the test that decides whether the journal is synced,
  \<^verbatim>\<open>pPg->flags&PGHDR_NEED_SYNC || pPager->eState==PAGER_WRITER_CACHEMOD\<close>.
\<close>

definition spill_refused :: "Pager \<Rightarrow> PgHdr \<Rightarrow> bool" where
  "spill_refused p pg =
     (doNotSpill p \<noteq> 0
      \<and> ((doNotSpill p AND (SPILLFLAG_ROLLBACK OR SPILLFLAG_OFF)) \<noteq> 0
          \<or> PGHDR_NEED_SYNC \<in> flags pg))"

definition sync_required :: "Pager \<Rightarrow> PgHdr \<Rightarrow> bool" where
  "sync_required p pg = (PGHDR_NEED_SYNC \<in> flags pg \<or> eState p = PAGER_WRITER_CACHEMOD)"

text \<open>
  The state that \<^verbatim>\<open>pagerStress\<close> hands to \<^verbatim>\<open>pager_write_pagelist\<close> in rollback mode, when neither
  the journal creation nor the journal sync has failed: after the spill is counted and
  \<^verbatim>\<open>pDirty\<close> cleared, the journal created (batch-atomic builds) and synced (if required), and
  the assertion of line 90 evaluated.
\<close>

definition stress_write_state :: "env \<Rightarrow> world \<Rightarrow> addr \<Rightarrow> PgHdr \<Rightarrow> world" where
  "stress_write_state e w a pg =
     (let w3 = (if batch_atomic_write e \<and> \<not> tempFile (pager w)
                then log_call Call_sqlite3JournalCreate
                       (stress_begin (assert_at 35 (PGHDR_DIRTY \<in> flags pg) w) a)
                else stress_begin (assert_at 35 (PGHDR_DIRTY \<in> flags pg) w) a);
          w4 = (if sync_required (pager w) pg then snd (syncJournal e w3) else w3)
      in assert_at 90 (PGHDR_NEED_SYNC \<notin> pg_flags w4 a) w4)"

section \<open>The database size on entering READER\<close>

text \<open>
  What the pager sees of the database file when it takes the shared lock: the size of the
  file in bytes (a 64-bit integer, as \<^verbatim>\<open>xFileSize\<close> reports it) and the in-header database
  size, the 4-byte field at offset 28 of page 1.
\<close>

record db_file =
  fileSize :: int
  header28 :: u32

text \<open>
  Modelled from the spec: the routine that computes \<^verbatim>\<open>Pager.dbSize\<close> when the pager moves from
  OPEN to READER (\<^verbatim>\<open>pagerPagecount\<close>, called by \<^verbatim>\<open>sqlite3PagerSharedLock\<close>) is not in the source
  files at hand. The definition follows the documentation of \<^verbatim>\<open>dbSize\<close> in the \<^verbatim>\<open>Pager\<close>
  structure: "dbSize is set based on the size of the database file, which may be larger than
  the size of the database (the value stored at offset 28 of the database header by the
  btree). If the size of the file is not an integer multiple of the page-size, the value
  stored in dbSize is rounded down (i.e. a 5KB file with 2K page-size has dbSize==2). Except,
  any file that is greater than 0 bytes in size is considered to have at least one page.
  (i.e. a 1KB file with 2K page-size leads to dbSize==1)." The result is stored in a
  \<^verbatim>\<open>Pgno\<close>, an unsigned 32-bit integer. This is the rollback-journal case; it does not cover a
  size taken from a write-ahead log.
\<close>

definition pagerPagecount :: "u32 \<Rightarrow> int \<Rightarrow> Pgno" where
  "pagerPagecount ps n =
     (if 0 < n \<and> n div sint ps = 0 then 1 else word_of_int (n div sint ps))"

text \<open>
  Modelled from the spec: the transition "OPEN to READER" of \<^verbatim>\<open>sqlite3PagerSharedLock\<close> (not in
  the source files at hand), as far as \<^verbatim>\<open>eState\<close>, \<^verbatim>\<open>eLock\<close> and \<^verbatim>\<open>dbSize\<close> go: in READER "a SHARED
  or greater lock is held on the database file" and "the dbSize variable may be trusted".
\<close>

definition enter_reader :: "Pager \<Rightarrow> db_file \<Rightarrow> Pager" where
  "enter_reader p f =
     p\<lparr>eState := PAGER_READER,
       eLock := (if eLock p = NO_LOCK then SHARED_LOCK else eLock p),
       dbSize := pagerPagecount (pageSize p) (fileSize f)\<rparr>"

text \<open>
  A pager in state OPEN with 2048-byte pages, and two database files: one of three whole pages
  whose header field says 2, and one of 1024 bytes whose header field says 0.
\<close>

definition pager_open_2k :: Pager where
  "pager_open_2k =
     \<lparr>exclusiveMode = False, tempFile = False, eState = PAGER_OPEN, eLock = NO_LOCK,
      changeCountDone = False, doNotSpill = 0, dbSize = 0, dbOrigSize = 0, dbFileSize = 0,
      dbHintSize = 0, errCode = SQLITE_OK, fdOpen = True, dbFileVers = replicate 16 0,
      pageSize = 2048, aStat = (\<lambda>i. 0), pWal = False\<rparr>"

definition file_three_pages :: db_file where
  "file_three_pages = \<lparr>fileSize = 6144, header28 = 2\<rparr>"

definition file_1k :: db_file where
  "file_1k = \<lparr>fileSize = 1024, header28 = 0\<rparr>"

section \<open>Commit in rollback mode: the change counter\<close>

text \<open>
  Modelled from the spec: \<^verbatim>\<open>pager_incr_changecounter\<close>, which commit calls before the dirty pages
  are written out (not in the source files at hand). "Bytes 24-27 form a monotonically
  advancing counter updated once per transaction that modifies the file. In exclusive-locking
  mode, the counter is updated only on the first committed transaction after acquiring the
  lock (changeCountDone suppresses redundant updates)"; and the documentation of
  \<^verbatim>\<open>changeCountDone\<close> in the \<^verbatim>\<open>Pager\<close> structure: "Each time a transaction is committed, the
  changeCountDone flag is inspected. If it is true, the work of updating the change-counter is
  omitted for the current transaction", "it is set to true when the change-counter field is
  updated". Updating the counter makes page 1 a dirty page of the transaction: the entry of
  page 1, at address \<open>a1\<close>, is put in front of the dirty list unless it is in the list already
  (the list is given as the pointer \<open>pList\<close> and as the addresses \<open>as\<close> it visits). The counter
  itself is advanced by \<^verbatim>\<open>pager_write_pagelist\<close> when it writes page 1.
\<close>

definition pager_incr_changecounter ::
    "world \<Rightarrow> addr \<Rightarrow> addr option \<Rightarrow> addr list \<Rightarrow> world \<times> addr option" where
  "pager_incr_changecounter w a1 pList as =
     (if changeCountDone (pager w) then (w, pList)
      else (let w1 = upd_pager (\<lambda>p. p\<lparr>changeCountDone := True\<rparr>) w
            in if a1 \<in> set as then (w1, pList)
               else (upd_page a1 (\<lambda>pg. pg\<lparr>pDirty := pList,
                                           flags := insert PGHDR_DIRTY (flags pg)\<rparr>) w1,
                     Some a1)))"

text \<open>
  Modelled from the spec: the part of commit phase one (\<^verbatim>\<open>sqlite3PagerCommitPhaseOne\<close>, not in
  the source files at hand) that writes the database file in rollback mode: the change counter
  is seen to, then the dirty list is written by \<^verbatim>\<open>pager_write_pagelist\<close>. The journal and the
  syncs of commit are not part of this model.
\<close>

definition commit_phase_one ::
    "env \<Rightarrow> world \<Rightarrow> addr \<Rightarrow> addr option \<Rightarrow> addr list \<Rightarrow> (rc \<times> world) option" where
  "commit_phase_one e w a1 pList as =
     (case pager_incr_changecounter w a1 pList as of (w1, l) \<Rightarrow> pager_write_pagelist e w1 l)"

section \<open>Observations and concrete states\<close>

text \<open>What a run returned, and the byte offsets of the database-file writes in its trace.\<close>

definition run_result :: "(rc \<times> world) option \<Rightarrow> rc option" where
  "run_result res = map_option fst res"

definition run_write_offsets :: "(rc \<times> world) option \<Rightarrow> int list" where
  "run_write_offsets res =
     (case res of None \<Rightarrow> [] | Some (r, w) \<Rightarrow> map (\<lambda>(buf, amt, off). sint off) (os_writes (calls w)))"

definition run_calls :: "(rc \<times> world) option \<Rightarrow> call list" where
  "run_calls res = (case res of None \<Rightarrow> [] | Some (r, w) \<Rightarrow> calls w)"

definition run_flags :: "(rc \<times> world) option \<Rightarrow> addr \<Rightarrow> pgflag set" where
  "run_flags res a = (case res of None \<Rightarrow> {} | Some (r, w) \<Rightarrow> pg_flags w a)"

definition run_pager :: "(rc \<times> world) option \<Rightarrow> Pager option" where
  "run_pager res = map_option (\<lambda>(r, w). pager w) res"

text \<open>
  An environment in which every call succeeds and no codec is installed, and one in which
  the write at byte offset 512 (page 2 of a file with 512-byte pages) fails.
\<close>

definition env_ok :: env where
  "env_ok = \<lparr>batch_atomic_write = False, rc_JournalCreate = SQLITE_OK, rc_subjournal = SQLITE_OK,
             rc_WalFrames = SQLITE_OK, rc_syncJournal = SQLITE_OK, rc_Opentemp = SQLITE_OK,
             rc_OsWrite = (\<lambda>off. SQLITE_OK), xCodec = None\<rparr>"

definition env_write_fails :: env where
  "env_write_fails = env_ok\<lparr>rc_OsWrite := (\<lambda>off. if off = 512 then SQLITE_IOERR IOERR_WRITE
                                                else SQLITE_OK)\<rparr>"

text \<open>
  A rollback-mode pager in state WRITER\_DBMOD with 512-byte pages and a three-page database,
  and a cache with two dirty entries: page 2 at address 10, linked to page 3 at address 11.
\<close>

definition pager_example :: Pager where
  "pager_example =
     \<lparr>exclusiveMode = False, tempFile = False, eState = PAGER_WRITER_DBMOD,
      eLock = EXCLUSIVE_LOCK, changeCountDone = False, doNotSpill = 0, dbSize = 3,
      dbOrigSize = 3, dbFileSize = 3, dbHintSize = 3, errCode = SQLITE_OK, fdOpen = True,
      dbFileVers = replicate 16 0, pageSize = 512, aStat = (\<lambda>i. 0), pWal = False\<rparr>"

definition page_example :: "Pgno \<Rightarrow> addr option \<Rightarrow> pgflag set \<Rightarrow> PgHdr" where
  "page_example n nxt fl =
     \<lparr>pData = replicate 512 0, pDirty = nxt, pgno = n, pageHash = 0, flags = fl\<rparr>"

definition world_example :: world where
  "world_example =
     \<lparr>pager = pager_example,
      pages = [10 \<mapsto> page_example 2 (Some 11) {PGHDR_DIRTY},
               11 \<mapsto> page_example 3 None {PGHDR_DIRTY}],
      dbfile = Map.empty, calls = [], failed_asserts = []\<rparr>"

text \<open>
  The same cache with the pager in state WRITER\_CACHEMOD (journal not yet synced) and both
  entries marked NEED\_SYNC.
\<close>

definition world_need_sync :: world where
  "world_need_sync =
     \<lparr>pager = pager_example\<lparr>eState := PAGER_WRITER_CACHEMOD\<rparr>,
      pages = [10 \<mapsto> page_example 2 (Some 11) {PGHDR_DIRTY, PGHDR_NEED_SYNC},
               11 \<mapsto> page_example 3 None {PGHDR_DIRTY, PGHDR_NEED_SYNC}],
      dbfile = Map.empty, calls = [], failed_asserts = []\<rparr>"

text \<open>The same cache with spilling switched off by the user (\<^verbatim>\<open>SPILLFLAG_OFF\<close>).\<close>

definition world_spill_off :: world where
  "world_spill_off = world_example\<lparr>pager := pager_example\<lparr>doNotSpill := SPILLFLAG_OFF\<rparr>\<rparr>"

text \<open>A byte of the database file after a run.\<close>

definition run_dbfile :: "(rc \<times> world) option \<Rightarrow> int \<Rightarrow> u8 option" where
  "run_dbfile res x = (case res of None \<Rightarrow> None | Some (r, w) \<Rightarrow> dbfile w x)"

text \<open>
  A cache with page 1 clean at address 9 and page 2 dirty at address 10, on a three-page
  database file whose change counter (bytes 24-27 of page 1) is 5, as is the cached copy in
  \<^verbatim>\<open>dbFileVers\<close>. With \<open>excl\<close> true the pager is in exclusive-locking mode and has updated the
  counter since it took the lock; with \<open>excl\<close> false it is in normal locking mode.
\<close>

definition page1_example :: "pgflag set \<Rightarrow> PgHdr" where
  "page1_example fl =
     \<lparr>pData = replicate 24 0 @ [0, 0, 0, 5] @ replicate 484 0, pDirty = None, pgno = 1,
      pageHash = 0, flags = fl\<rparr>"

definition world_commit :: "bool \<Rightarrow> world" where
  "world_commit excl =
     \<lparr>pager = pager_example\<lparr>exclusiveMode := excl, changeCountDone := excl,
                             dbFileVers := [0, 0, 0, 5] @ replicate 12 0\<rparr>,
      pages = [9 \<mapsto> page1_example {}, 10 \<mapsto> page_example 2 None {PGHDR_DIRTY}],
      dbfile = (\<lambda>x. if 0 \<le> x \<and> x < 1536 then Some (if x = 27 then 5 else 0) else None),
      calls = [], failed_asserts = []\<rparr>"

section \<open>Projections of the state updates\<close>

lemma assert_at_proj [simp]:
  "pager (assert_at l c w) = pager w"
  "pages (assert_at l c w) = pages w"
  "dbfile (assert_at l c w) = dbfile w"
  "calls (assert_at l c w) = calls w"
  "failed_asserts (assert_at l c w) = failed_asserts w @ (if c then [] else [l])"
  by (simp_all add: assert_at_def)

lemma log_call_proj [simp]:
  "pager (log_call c w) = pager w"
  "pages (log_call c w) = pages w"
  "dbfile (log_call c w) = dbfile w"
  "calls (log_call c w) = calls w @ [c]"
  "failed_asserts (log_call c w) = failed_asserts w"
  by (simp_all add: log_call_def)

lemma upd_pager_proj [simp]:
  "pager (upd_pager f w) = f (pager w)"
  "pages (upd_pager f w) = pages w"
  "dbfile (upd_pager f w) = dbfile w"
  "calls (upd_pager f w) = calls w"
  "failed_asserts (upd_pager f w) = failed_asserts w"
  by (simp_all add: upd_pager_def)

lemma upd_page_proj [simp]:
  "pager (upd_page a f w) = pager w"
  "pages (upd_page a f w) = (pages w)(a := map_option f (pages w a))"
  "dbfile (upd_page a f w) = dbfile w"
  "calls (upd_page a f w) = calls w"
  "failed_asserts (upd_page a f w) = failed_asserts w"
  by (simp_all add: upd_page_def)

lemma pg_flags_upd_pager [simp]: "pg_flags (upd_pager f w) a = pg_flags w a"
  and pg_flags_log_call [simp]: "pg_flags (log_call c w) a = pg_flags w a"
  and pg_flags_assert_at [simp]: "pg_flags (assert_at l b w) a = pg_flags w a"
  by (simp_all add: pg_flags_def)

lemma os_writes_append [simp]: "os_writes (xs @ ys) = os_writes xs @ os_writes ys"
  by (induction xs rule: os_writes.induct) auto

lemma sqlite3OsWrite_proj [simp]:
  "pager (snd (sqlite3OsWrite e w buf amt off)) = pager w"
  "pages (snd (sqlite3OsWrite e w buf amt off)) = pages w"
  "calls (snd (sqlite3OsWrite e w buf amt off)) = calls w @ [Call_sqlite3OsWrite buf amt off]"
  "failed_asserts (snd (sqlite3OsWrite e w buf amt off)) = failed_asserts w"
  "fst (sqlite3OsWrite e w buf amt off) = rc_OsWrite e off"
  "dbfile (snd (sqlite3OsWrite e w buf amt off)) =
     (if rc_OsWrite e off = SQLITE_OK
      then store_bytes (dbfile w) (sint off) (take (nat (sint amt)) buf) else dbfile w)"
  by (simp_all add: sqlite3OsWrite_def Let_def)

lemma pager_write_changecounter_proj [simp]:
  "pager (pager_write_changecounter w a) = pager w"
  "dbfile (pager_write_changecounter w a) = dbfile w"
  "calls (pager_write_changecounter w a) = calls w"
  "failed_asserts (pager_write_changecounter w a) = failed_asserts w"
  by (simp_all add: pager_write_changecounter_def)

lemma pager_set_pagehash_proj [simp]:
  "pager (pager_set_pagehash w a) = pager w"
  "dbfile (pager_set_pagehash w a) = dbfile w"
  "calls (pager_set_pagehash w a) = calls w"
  "failed_asserts (pager_set_pagehash w a) = failed_asserts w"
  by (simp_all add: pager_set_pagehash_def)


section \<open>Links are kept by the updates of page content\<close>

lemma links_upd:
  "(\<And>pg. pDirty (f pg) = pDirty pg \<and> pgno (f pg) = pgno pg \<and> flags (f pg) = flags pg)
   \<Longrightarrow> links (h(a := map_option f (h a))) = links h"
  by (rule ext) (simp add: links_def option.map_comp comp_def)

lemma links_changecounter [simp]: "links (pages (pager_write_changecounter w a)) = links (pages w)"
  by (simp add: pager_write_changecounter_def links_upd)

lemma links_pagehash [simp]: "links (pages (pager_set_pagehash w a)) = links (pages w)"
  by (simp add: pager_set_pagehash_def links_upd)

lemma links_SomeD:
  assumes "links h' = links h" and "h a = Some pg"
  shows "\<exists>pg'. h' a = Some pg' \<and> pDirty pg' = pDirty pg \<and> pgno pg' = pgno pg \<and> flags pg' = flags pg"
proof -
  have "links h' a = links h a" using assms(1) by simp
  then show ?thesis using assms(2) by (cases "h' a") (auto simp: links_def)
qed

lemma links_NoneD:
  assumes "links h' = links h" and "h a = None"
  shows "h' a = None"
proof -
  have "links h' a = links h a" using assms(1) by simp
  then show ?thesis using assms(2) by (simp add: links_def)
qed

lemma dirty_chain_links:
  "links h' = links h \<Longrightarrow> dirty_chain h' p as = dirty_chain h p as"
proof (induction as arbitrary: p)
  case Nil
  then show ?case by simp
next
  case (Cons a as)
  show ?case
  proof (cases "h a")
    case None
    then show ?thesis using links_NoneD [OF Cons.prems None] by simp
  next
    case (Some pg)
    then obtain pg' where "h' a = Some pg'" "pDirty pg' = pDirty pg"
      using links_SomeD [OF Cons.prems Some] by blast
    then show ?thesis using Some Cons.IH [OF Cons.prems] by simp
  qed
qed

lemma pg_flags_links:
  assumes "links (pages w') = links (pages w)"
  shows "pg_flags w' a = pg_flags w a"
proof -
  have "links (pages w') a = links (pages w) a" using assms by simp
  then show ?thesis
    by (cases "pages w a"; cases "pages w' a") (simp_all add: links_def pg_flags_def)
qed

section \<open>One turn of the write loop\<close>

lemma pg_data_proj [simp]:
  "pg_data (assert_at l c w) a = pg_data w a"
  "pg_data (log_call k w) a = pg_data w a"
  "pg_data (upd_pager f w) a = pg_data w a"
  by (simp_all add: pg_data_def)

lemma pg_data_changecounter_assert [simp]:
  "pg_data (pager_write_changecounter (assert_at l c w) a) b
   = pg_data (pager_write_changecounter w a) b"
  by (simp add: pg_data_def pager_write_changecounter_def)

lemma pagelist_step_Some:
  "pages w a = Some pg \<Longrightarrow> \<exists>s. pagelist_step e w a = Some s"
  by (simp add: pagelist_step_def)

lemma pagelist_step_pager:
  assumes "pagelist_step e w a = Some s"
  shows "dbSize (pager (step_world s)) = dbSize (pager w)"
    and "pageSize (pager (step_world s)) = pageSize (pager w)"
    and "errCode (pager (step_world s)) = errCode (pager w)"
    and "eState (pager (step_world s)) = eState (pager w)"
    and "aStat (pager (step_world s)) PAGER_STAT_SPILL = aStat (pager w) PAGER_STAT_SPILL"
  using assms
  by (auto simp: pagelist_step_def Let_def split_beta PAGER_STAT_SPILL_def PAGER_STAT_WRITE_def
      split: option.splits if_splits)

lemma pagelist_step_links:
  assumes "pagelist_step e w a = Some s"
  shows "links (pages (step_world s)) = links (pages w)"
  using assms
  by (auto simp: pagelist_step_def Let_def split_beta split: option.splits if_splits)

lemma pagelist_step_rc:
  assumes "pagelist_step e w a = Some s"
  shows "step_rc s =
           (if passes_write_test w a
            then (case write_buffer e w a of
                    None \<Rightarrow> SQLITE_NOMEM
                  | Some d \<Rightarrow> rc_OsWrite e (page_offset w a))
            else SQLITE_OK)"
    and "(\<exists>r w'. s = Return r w') = (passes_write_test w a \<and> write_buffer e w a = None)"
  using assms
  by (auto simp: pagelist_step_def passes_write_test_def page_offset_def write_buffer_def Let_def
        split_beta split: option.splits if_splits)

lemma pagelist_step_calls:
  assumes "pagelist_step e w a = Some s"
  shows "\<exists>cs. calls (step_world s) = calls w @ cs
            \<and> (\<forall>c \<in> set cs. \<exists>b n off pn d. c = Call_sqlite3OsWrite b n off
                                              \<or> c = Call_sqlite3BackupUpdate pn d)
            \<and> os_writes cs =
                 (if passes_write_test w a
                  then (case write_buffer e w a of
                          None \<Rightarrow> []
                        | Some d \<Rightarrow> [(d, pageSize (pager w), page_offset w a)])
                  else [])"
  using assms
  by (auto simp: pagelist_step_def passes_write_test_def page_offset_def write_buffer_def Let_def
        split_beta split: option.splits if_splits)

lemma pagelist_step_asserts:
  assumes "pagelist_step e w a = Some s"
  shows "failed_asserts (step_world s) =
           failed_asserts w @ (if passes_write_test w a \<and> PGHDR_NEED_SYNC \<in> pg_flags w a
                               then [181] else [])"
  using assms
  by (auto simp: pagelist_step_def passes_write_test_def pg_flags_def Let_def
        split_beta split: option.splits if_splits)

lemma pagelist_step_dbfile:
  assumes "pagelist_step e w a = Some s"
  shows "dbfile (step_world s) =
           (if passes_write_test w a
            then (case write_buffer e w a of
                    None \<Rightarrow> dbfile w
                  | Some d \<Rightarrow>
                      if rc_OsWrite e (page_offset w a) = SQLITE_OK
                      then store_bytes (dbfile w) (sint (page_offset w a))
                             (take (nat (sint (pageSize (pager w)))) d)
                      else dbfile w)
            else dbfile w)"
  using assms
  by (auto simp: pagelist_step_def passes_write_test_def page_offset_def write_buffer_def Let_def
        split_beta split: option.splits if_splits)

section \<open>The write loop on a well-formed chain\<close>

lemma passes_write_test_cong:
  assumes "links (pages w') = links (pages w)" and "dbSize (pager w') = dbSize (pager w)"
  shows "passes_write_test w' a = passes_write_test w a"
proof -
  have "links (pages w') a = links (pages w) a" using assms(1) by simp
  then show ?thesis using assms(2)
    by (cases "pages w a"; cases "pages w' a") (simp_all add: links_def passes_write_test_def)
qed

lemma page_offset_cong:
  assumes "links (pages w') = links (pages w)" and "pageSize (pager w') = pageSize (pager w)"
  shows "page_offset w' a = page_offset w a"
proof -
  have "links (pages w') a = links (pages w) a" using assms(1) by simp
  then show ?thesis using assms(2)
    by (cases "pages w a"; cases "pages w' a") (simp_all add: links_def page_offset_def)
qed

lemma Some_pair_eqD: "Some (a, b) = Some (c, d) \<Longrightarrow> a = c \<and> b = d"
  by (simp only: option.inject prod.inject simp_thms)

lemma pagelist_run_ConsE:
  assumes "pagelist_run e r w (a # as) = Some (r', w')"
  obtains (stop) "r \<noteq> SQLITE_OK" "r' = r" "w' = w"
  | (ret) s where "r = SQLITE_OK" "pagelist_step e w a = Some s" "\<exists>x y. s = Return x y"
      "r' = step_rc s" "w' = step_world s"
  | (cont) s where "r = SQLITE_OK" "pagelist_step e w a = Some s" "\<exists>x y. s = Continue x y"
      "pagelist_run e (step_rc s) (step_world s) as = Some (r', w')"
proof (cases "r = SQLITE_OK")
  case False
  then have "pagelist_run e r w (a # as) = Some (r, w)" by simp
  with assms have "Some (r, w) = Some (r', w')" by (rule_tac trans [OF sym])
  then have "r = r' \<and> w = w'" by (rule Some_pair_eqD)
  then show ?thesis using False stop by blast
next
  case True
  have "pagelist_step e w a \<noteq> None"
  proof
    assume "pagelist_step e w a = None"
    then have "pagelist_run e r w (a # as) = None" using True by simp
    with assms show False by (simp only: option.distinct)
  qed
  then obtain s where s: "pagelist_step e w a = Some s" by blast
  show ?thesis
  proof (cases s)
    case (Continue x y)
    have "pagelist_run e r w (a # as) = pagelist_run e x y as"
      using True s Continue by simp
    then have "pagelist_run e (step_rc s) (step_world s) as = Some (r', w')"
      using assms Continue by (simp only: step_rc.simps step_world.simps)
    then show ?thesis using True s Continue cont [of s] by blast
  next
    case (Return x y)
    have "pagelist_run e r w (a # as) = Some (x, y)"
      using True s Return by simp
    with assms have "Some (x, y) = Some (r', w')" by (rule_tac trans [OF sym])
    then have "x = r' \<and> y = w'" by (rule Some_pair_eqD)
    then have "r' = step_rc s" "w' = step_world s"
      using Return by (simp_all only: step_rc.simps step_world.simps)
    then show ?thesis using True s Return ret [of s] by blast
  qed
qed

lemma pagelist_loop_chain:
  "dirty_chain (pages w) p as \<Longrightarrow> pagelist_loop e r w p = pagelist_run e r w as"
proof (induction as arbitrary: r w p)
  case Nil
  then show ?case by (simp add: pagelist_loop.simps)
next
  case (Cons a as)
  from Cons.prems obtain pg where p: "p = Some a" and pg: "pages w a = Some pg"
    and tl: "dirty_chain (pages w) (pDirty pg) as"
    by (cases "pages w a") simp_all
  show ?case
  proof (cases "r = SQLITE_OK")
    case False
    then show ?thesis using p by (simp add: pagelist_loop.simps)
  next
    case True
    obtain s where s: "pagelist_step e w a = Some s"
      using pagelist_step_Some [OF pg] by blast
    have lk: "links (pages (step_world s)) = links (pages w)"
      by (rule pagelist_step_links [OF s])
    obtain pg' where pg': "pages (step_world s) a = Some pg'" "pDirty pg' = pDirty pg"
      using links_SomeD [OF lk pg] by blast
    have tl': "dirty_chain (pages (step_world s)) (pDirty pg') as"
      using tl pg'(2) dirty_chain_links [OF lk] by simp
    show ?thesis
    proof (cases s)
      case (Continue x y)
      have "pagelist_loop e r w p = pagelist_loop e x y (pDirty pg')"
        using True p s Continue pg' by (subst pagelist_loop.simps) simp
      also have "\<dots> = pagelist_run e x y as"
        using Cons.IH [OF tl'] Continue by simp
      finally show ?thesis using True s Continue by simp
    next
      case (Return x y)
      then show ?thesis using True p s by (subst pagelist_loop.simps) simp
    qed
  qed
qed

lemma pagelist_run_Some:
  "\<forall>a \<in> set as. pages w a \<noteq> None \<Longrightarrow> \<exists>r' w'. pagelist_run e r w as = Some (r', w')"
proof (induction as arbitrary: r w)
  case Nil
  then show ?case by simp
next
  case (Cons a as)
  then obtain pg where pg: "pages w a = Some pg" by auto
  obtain s where s: "pagelist_step e w a = Some s"
    using pagelist_step_Some [OF pg] by blast
  have lk: "links (pages (step_world s)) = links (pages w)"
    by (rule pagelist_step_links [OF s])
  have "\<forall>b \<in> set as. pages (step_world s) b \<noteq> None"
  proof
    fix b assume "b \<in> set as"
    then obtain q where "pages w b = Some q" using Cons.prems by auto
    then show "pages (step_world s) b \<noteq> None" using links_SomeD [OF lk] by fastforce
  qed
  from Cons.IH [OF this] show ?case using s by (cases s) auto
qed

lemma dirty_chain_pages: "dirty_chain h p as \<Longrightarrow> \<forall>a \<in> set as. h a \<noteq> None"
  by (induction as arbitrary: p) (auto split: option.splits)

lemma pagelist_run_pager:
  assumes "pagelist_run e r w as = Some (r', w')"
  shows "dbSize (pager w') = dbSize (pager w) \<and> pageSize (pager w') = pageSize (pager w)
       \<and> errCode (pager w') = errCode (pager w) \<and> eState (pager w') = eState (pager w)
       \<and> aStat (pager w') PAGER_STAT_SPILL = aStat (pager w) PAGER_STAT_SPILL"
  using assms
proof (induction as arbitrary: r w)
  case Nil
  then show ?case by simp
next
  case (Cons a as)
  from Cons.prems show ?case
  proof (cases rule: pagelist_run_ConsE)
    case stop
    then show ?thesis by simp
  next
    case (ret s)
    then show ?thesis using pagelist_step_pager [OF ret(2)] by simp
  next
    case (cont s)
    show ?thesis using Cons.IH [OF cont(4)] pagelist_step_pager [OF cont(2)] by simp
  qed
qed

lemma pagelist_run_links:
  assumes "pagelist_run e r w as = Some (r', w')"
  shows "links (pages w') = links (pages w)"
  using assms
proof (induction as arbitrary: r w)
  case Nil
  then show ?case by simp
next
  case (Cons a as)
  from Cons.prems show ?case
  proof (cases rule: pagelist_run_ConsE)
    case stop
    then show ?thesis by simp
  next
    case (ret s)
    then show ?thesis using pagelist_step_links [OF ret(2)] by simp
  next
    case (cont s)
    show ?thesis using Cons.IH [OF cont(4)] pagelist_step_links [OF cont(2)] by simp
  qed
qed

lemma pagelist_step_calls':
  assumes "pagelist_step e w a = Some s"
  shows "\<exists>cs. calls (step_world s) = calls w @ cs \<and> list_all write_or_backup cs
            \<and> os_writes cs =
                 (if passes_write_test w a
                  then (case write_buffer e w a of
                          None \<Rightarrow> []
                        | Some d \<Rightarrow> [(d, pageSize (pager w), page_offset w a)])
                  else [])"
proof -
  from pagelist_step_calls [OF assms] obtain cs where
    cs: "calls (step_world s) = calls w @ cs"
      "\<forall>c \<in> set cs. \<exists>b n off pn d. c = Call_sqlite3OsWrite b n off
                                              \<or> c = Call_sqlite3BackupUpdate pn d"
      "os_writes cs =
                 (if passes_write_test w a
                  then (case write_buffer e w a of
                          None \<Rightarrow> []
                        | Some d \<Rightarrow> [(d, pageSize (pager w), page_offset w a)])
                  else [])"
    by blast
  have "list_all write_or_backup cs"
    unfolding list_all_iff
  proof
    fix c assume "c \<in> set cs"
    with cs(2) obtain b n off pn d where
      "c = Call_sqlite3OsWrite b n off \<or> c = Call_sqlite3BackupUpdate pn d" by blast
    then show "write_or_backup c" by auto
  qed
  with cs(1,3) show ?thesis by blast
qed

lemma pagelist_run_stopped:
  assumes "pagelist_run e r w as = Some (r', w')" and "r \<noteq> SQLITE_OK"
  shows "r' = r \<and> calls w' = calls w \<and> failed_asserts w' = failed_asserts w
         \<and> dbfile w' = dbfile w"
proof (cases as)
  case Nil
  then have "Some (r, w) = Some (r', w')" using assms(1) by simp
  then have "r = r' \<and> w = w'" by (rule Some_pair_eqD)
  then show ?thesis by blast
next
  case (Cons a as')
  then have "Some (r, w) = Some (r', w')" using assms by simp
  then have "r = r' \<and> w = w'" by (rule Some_pair_eqD)
  then show ?thesis by blast
qed

lemma pagelist_run_calls:
  assumes "pagelist_run e r w as = Some (r', w')"
  shows "\<exists>cs n. calls w' = calls w @ cs \<and> list_all write_or_backup cs \<and> n \<le> length as
           \<and> map (\<lambda>(b, k, off). (k, off)) (os_writes cs) =
               map (\<lambda>a. (pageSize (pager w), page_offset w a))
                   (filter (passes_write_test w) (take n as))
           \<and> (r = SQLITE_OK \<and> r' = SQLITE_OK \<longrightarrow> n = length as)"
  using assms
proof (induction as arbitrary: r w)
  case Nil
  then have "Some (r, w) = Some (r', w')" by simp
  then have "r = r' \<and> w = w'" by (rule Some_pair_eqD)
  then have "calls w' = calls w @ []" by simp
  then show ?case by (intro exI [of _ "[]"] exI [of _ 0]) simp
next
  case (Cons a as)
  from Cons.prems show ?case
  proof (cases rule: pagelist_run_ConsE)
    case stop
    have "calls w' = calls w @ []" unfolding stop(3) by simp
    then show ?thesis using stop(1) by (intro exI [of _ "[]"] exI [of _ 0]) simp
  next
    case (ret s)
    from pagelist_step_calls' [OF ret(2)] obtain cs where
      cs: "calls (step_world s) = calls w @ cs" "list_all write_or_backup cs"
        "os_writes cs = (if passes_write_test w a
                  then (case write_buffer e w a of
                          None \<Rightarrow> []
                        | Some d \<Rightarrow> [(d, pageSize (pager w), page_offset w a)])
                  else [])" by blast
    have nb: "passes_write_test w a \<and> write_buffer e w a = None"
      using pagelist_step_rc(2) [OF ret(2)] ret(3) by blast
    then have "os_writes cs = []" using cs(3) by simp
    moreover have "r' = SQLITE_NOMEM"
      unfolding ret(4) using pagelist_step_rc(1) [OF ret(2)] nb by simp
    ultimately show ?thesis using cs(1,2) unfolding ret(5)
      by (intro exI [of _ cs] exI [of _ 0]) simp
  next
    case (cont s)
    let ?ws = "step_world s"
    from pagelist_step_calls' [OF cont(2)] obtain cs where
      cs: "calls ?ws = calls w @ cs" "list_all write_or_backup cs"
        "os_writes cs = (if passes_write_test w a
                  then (case write_buffer e w a of
                          None \<Rightarrow> []
                        | Some d \<Rightarrow> [(d, pageSize (pager w), page_offset w a)])
                  else [])" by blast
    have lk: "links (pages ?ws) = links (pages w)" by (rule pagelist_step_links [OF cont(2)])
    have pg: "dbSize (pager ?ws) = dbSize (pager w)" "pageSize (pager ?ws) = pageSize (pager w)"
      using pagelist_step_pager [OF cont(2)] by simp_all
    have pt: "passes_write_test ?ws = passes_write_test w"
      by (rule ext) (rule passes_write_test_cong [OF lk pg(1)])
    have po: "page_offset ?ws = page_offset w"
      by (rule ext) (rule page_offset_cong [OF lk pg(2)])
    from Cons.IH [OF cont(4)] obtain cs' n where
      t: "calls w' = calls ?ws @ cs'" "list_all write_or_backup cs'" "n \<le> length as"
         "map (\<lambda>(b, k, off). (k, off)) (os_writes cs') =
               map (\<lambda>a. (pageSize (pager w), page_offset w a))
                   (filter (passes_write_test w) (take n as))"
         "step_rc s = SQLITE_OK \<and> r' = SQLITE_OK \<longrightarrow> n = length as"
      unfolding pt po pg by blast
    have nr: "\<not> (passes_write_test w a \<and> write_buffer e w a = None)"
      using pagelist_step_rc(2) [OF cont(2)] cont(3) by auto
    have hd: "map (\<lambda>(b, k, off). (k, off)) (os_writes cs) =
               map (\<lambda>a. (pageSize (pager w), page_offset w a)) (filter (passes_write_test w) [a])"
      using cs(3) nr by (cases "write_buffer e w a") auto
    have fin: "r' = SQLITE_OK \<longrightarrow> step_rc s = SQLITE_OK"
    proof (cases "step_rc s = SQLITE_OK")
      case False
      from pagelist_run_stopped [OF cont(4) False] have "r' = step_rc s" by (rule conjunct1)
      with False show ?thesis by simp
    qed simp
    have c1: "calls w' = calls w @ (cs @ cs')" using t(1) cs(1) by simp
    have c2: "list_all write_or_backup (cs @ cs')" using t(2) cs(2) by simp
    have c3: "map (\<lambda>(b, k, off). (k, off)) (os_writes (cs @ cs')) =
               map (\<lambda>a. (pageSize (pager w), page_offset w a))
                   (filter (passes_write_test w) (take (Suc n) (a # as)))"
      using hd t(4) by simp
    have c4: "Suc n \<le> length (a # as)" using t(3) by simp
    have c5: "r = SQLITE_OK \<and> r' = SQLITE_OK \<longrightarrow> Suc n = length (a # as)"
      using t(5) fin by simp
    show ?thesis using c1 c2 c3 c4 c5 by blast
  qed
qed

lemma pagelist_run_asserts:
  assumes "pagelist_run e r w as = Some (r', w')"
  shows "\<exists>fs. failed_asserts w' = failed_asserts w @ fs \<and> set fs \<subseteq> {181}
           \<and> ((\<forall>a \<in> set as. passes_write_test w a \<longrightarrow> PGHDR_NEED_SYNC \<notin> pg_flags w a)
                \<longrightarrow> fs = [])"
  using assms
proof (induction as arbitrary: r w)
  case Nil
  then have "Some (r, w) = Some (r', w')" by simp
  then have "r = r' \<and> w = w'" by (rule Some_pair_eqD)
  then have "failed_asserts w' = failed_asserts w @ []" by simp
  then show ?case by (intro exI [of _ "[]"]) simp
next
  case (Cons a as)
  from Cons.prems show ?case
  proof (cases rule: pagelist_run_ConsE)
    case stop
    have "failed_asserts w' = failed_asserts w @ []" unfolding stop(3) by simp
    then show ?thesis by (intro exI [of _ "[]"]) simp
  next
    case (ret s)
    let ?fs = "if passes_write_test w a \<and> PGHDR_NEED_SYNC \<in> pg_flags w a then [181] else []"
    have "failed_asserts w' = failed_asserts w @ ?fs"
      unfolding ret(5) by (rule pagelist_step_asserts [OF ret(2)])
    then show ?thesis by (intro exI [of _ ?fs]) auto
  next
    case (cont s)
    let ?ws = "step_world s"
    let ?fs = "if passes_write_test w a \<and> PGHDR_NEED_SYNC \<in> pg_flags w a then [181] else []"
    have f1: "failed_asserts ?ws = failed_asserts w @ ?fs"
      by (rule pagelist_step_asserts [OF cont(2)])
    have lk: "links (pages ?ws) = links (pages w)" by (rule pagelist_step_links [OF cont(2)])
    have pg: "dbSize (pager ?ws) = dbSize (pager w)"
      using pagelist_step_pager [OF cont(2)] by simp
    have pt: "passes_write_test ?ws = passes_write_test w"
      by (rule ext) (rule passes_write_test_cong [OF lk pg])
    have pf: "pg_flags ?ws = pg_flags w"
      by (rule ext) (rule pg_flags_links [OF lk])
    from Cons.IH [OF cont(4)] obtain fs where
      t: "failed_asserts w' = failed_asserts ?ws @ fs" "set fs \<subseteq> {181}"
         "(\<forall>a \<in> set as. passes_write_test w a \<longrightarrow> PGHDR_NEED_SYNC \<notin> pg_flags w a) \<longrightarrow> fs = []"
      unfolding pt pf by blast
    have c1: "failed_asserts w' = failed_asserts w @ (?fs @ fs)" using t(1) f1 by simp
    have c2: "set (?fs @ fs) \<subseteq> {181}" using t(2) by auto
    have c3: "(\<forall>b \<in> set (a # as). passes_write_test w b \<longrightarrow> PGHDR_NEED_SYNC \<notin> pg_flags w b)
                \<longrightarrow> ?fs @ fs = []" using t(3) by simp
    show ?thesis using c1 c2 c3 by blast
  qed
qed

lemma store_bytes_outside:
  "\<not> (off \<le> x \<and> x < off + n) \<Longrightarrow> store_bytes f off (take (nat n) d) x = f x"
  by (auto simp: store_bytes_def)

lemma pagelist_step_dbfile_frame:
  assumes "pagelist_step e w a = Some s"
    and "passes_write_test w a \<longrightarrow>
           \<not> (sint (page_offset w a) \<le> x \<and> x < sint (page_offset w a) + sint (pageSize (pager w)))"
  shows "dbfile (step_world s) x = dbfile w x"
proof (cases "passes_write_test w a")
  case False
  then show ?thesis using pagelist_step_dbfile [OF assms(1)] by simp
next
  case True
  with assms(2) have
    "\<not> (sint (page_offset w a) \<le> x \<and> x < sint (page_offset w a) + sint (pageSize (pager w)))"
    by simp
  from store_bytes_outside [OF this] show ?thesis
    using pagelist_step_dbfile [OF assms(1)] True by (simp split: option.split)
qed

lemma pagelist_run_dbfile_frame:
  assumes "pagelist_run e r w as = Some (r', w')"
    and "\<forall>a \<in> set as. passes_write_test w a \<longrightarrow>
           \<not> (sint (page_offset w a) \<le> x \<and> x < sint (page_offset w a) + sint (pageSize (pager w)))"
  shows "dbfile w' x = dbfile w x"
  using assms
proof (induction as arbitrary: r w)
  case Nil
  then have "Some (r, w) = Some (r', w')" by simp
  then have "r = r' \<and> w = w'" by (rule Some_pair_eqD)
  then show ?case by simp
next
  case (Cons a as)
  have hd: "passes_write_test w a \<longrightarrow>
           \<not> (sint (page_offset w a) \<le> x \<and> x < sint (page_offset w a) + sint (pageSize (pager w)))"
    using Cons.prems(2) by simp
  from Cons.prems(1) show ?case
  proof (cases rule: pagelist_run_ConsE)
    case stop
    show ?thesis unfolding stop(3) by simp
  next
    case (ret s)
    show ?thesis unfolding ret(5) by (rule pagelist_step_dbfile_frame [OF ret(2) hd])
  next
    case (cont s)
    let ?ws = "step_world s"
    have lk: "links (pages ?ws) = links (pages w)" by (rule pagelist_step_links [OF cont(2)])
    have pg: "dbSize (pager ?ws) = dbSize (pager w)" "pageSize (pager ?ws) = pageSize (pager w)"
      using pagelist_step_pager [OF cont(2)] by simp_all
    have pt: "passes_write_test ?ws = passes_write_test w"
      by (rule ext) (rule passes_write_test_cong [OF lk pg(1)])
    have po: "page_offset ?ws = page_offset w"
      by (rule ext) (rule page_offset_cong [OF lk pg(2)])
    have "\<forall>a \<in> set as. passes_write_test ?ws a \<longrightarrow>
           \<not> (sint (page_offset ?ws a) \<le> x
               \<and> x < sint (page_offset ?ws a) + sint (pageSize (pager ?ws)))"
      unfolding pt po pg using Cons.prems(2) by simp
    from Cons.IH [OF cont(4) this] have "dbfile w' x = dbfile ?ws x" .
    also have "\<dots> = dbfile w x" by (rule pagelist_step_dbfile_frame [OF cont(2) hd])
    finally show ?thesis .
  qed
qed

section \<open>The part of pager\_write\_pagelist before the loop\<close>

lemma pagerOpentemp_proj [simp]:
  "pages (snd (pagerOpentemp e w)) = pages w"
  "dbfile (snd (pagerOpentemp e w)) = dbfile w"
  "calls (snd (pagerOpentemp e w)) = calls w @ [Call_pagerOpentemp]"
  "failed_asserts (snd (pagerOpentemp e w)) = failed_asserts w"
  "fst (pagerOpentemp e w) = rc_Opentemp e"
  "dbSize (pager (snd (pagerOpentemp e w))) = dbSize (pager w)"
  "dbHintSize (pager (snd (pagerOpentemp e w))) = dbHintSize (pager w)"
  "pageSize (pager (snd (pagerOpentemp e w))) = pageSize (pager w)"
  "errCode (pager (snd (pagerOpentemp e w))) = errCode (pager w)"
  "eState (pager (snd (pagerOpentemp e w))) = eState (pager w)"
  "aStat (pager (snd (pagerOpentemp e w))) = aStat (pager w)"
  "dbFileVers (pager (snd (pagerOpentemp e w))) = dbFileVers (pager w)"
  by (simp_all add: pagerOpentemp_def Let_def)

lemma deref_proj [simp]:
  "deref (assert_at l c w) p = deref w p"
  "deref (snd (pagerOpentemp e w)) p = deref w p"
  by (simp_all add: deref_def split: option.split)

lemma pagelist_prelude_state:
  assumes "pagelist_prelude e w pList = Some (r0, w0)"
  shows "pages w0 = pages w" and "dbfile w0 = dbfile w"
    and "dbSize (pager w0) = dbSize (pager w)" and "pageSize (pager w0) = pageSize (pager w)"
    and "errCode (pager w0) = errCode (pager w)" and "eState (pager w0) = eState (pager w)"
    and "aStat (pager w0) = aStat (pager w)" and "dbFileVers (pager w0) = dbFileVers (pager w)"
    and "r0 = (if fdOpen (pager w) then SQLITE_OK else rc_Opentemp e)"
  using assms
  by (auto simp: pagelist_prelude_def Let_def split_beta split: if_splits option.splits)

lemma pagelist_prelude_calls:
  assumes "pagelist_prelude e w pList = Some (r0, w0)"
  shows "\<exists>cs0. calls w0 = calls w @ cs0 \<and> os_writes cs0 = []
            \<and> (\<forall>c \<in> set cs0. c = Call_pagerOpentemp \<or> (\<exists>z. c = Call_sqlite3OsFileControlHint z))"
  using assms
  by (auto simp: pagelist_prelude_def Let_def split_beta split: if_splits option.splits)

lemma pagelist_prelude_asserts:
  assumes "pagelist_prelude e w pList = Some (r0, w0)"
  shows "\<exists>fs0. failed_asserts w0 = failed_asserts w @ fs0
            \<and> set fs0 \<subseteq> {141, 142, 143, 144, 151, 158}"
  using assms
  by (auto simp: pagelist_prelude_def Let_def split_beta split: if_splits option.splits)

lemma pagelist_prelude_Some:
  assumes "deref w pList \<noteq> None"
  shows "\<exists>r0 w0. pagelist_prelude e w pList = Some (r0, w0)"
  using assms
  by (auto simp: pagelist_prelude_def Let_def split_beta split: if_splits option.splits)

section \<open>pager\_write\_pagelist on a well-formed chain\<close>

lemma pager_write_pagelist_run:
  assumes "dirty_chain (pages w) pList as"
    and "pager_write_pagelist e w pList = Some (r', w')"
  obtains r0 w0 where "pagelist_prelude e w pList = Some (r0, w0)"
    and "pagelist_run e r0 w0 as = Some (r', w')"
proof (cases "pagelist_prelude e w pList")
  case None
  then have "pager_write_pagelist e w pList = None" by (simp add: pager_write_pagelist_def)
  with assms(2) show ?thesis by (simp only: option.distinct)
next
  case (Some rw)
  obtain r0 w0 where rw: "rw = (r0, w0)" by (cases rw)
  have pre: "pagelist_prelude e w pList = Some (r0, w0)" using Some rw by simp
  have "pages w0 = pages w" by (rule pagelist_prelude_state(1) [OF pre])
  then have "dirty_chain (pages w0) pList as" using assms(1) by simp
  then have "pagelist_loop e r0 w0 pList = pagelist_run e r0 w0 as" by (rule pagelist_loop_chain)
  moreover have "pager_write_pagelist e w pList = pagelist_loop e r0 w0 pList"
    using pre by (simp add: pager_write_pagelist_def)
  ultimately have "pagelist_run e r0 w0 as = Some (r', w')" using assms(2) by simp
  with pre show ?thesis by (rule that)
qed

lemma pager_write_pagelist_Some:
  assumes "dirty_chain (pages w) pList (a # as)"
  shows "\<exists>r' w'. pager_write_pagelist e w pList = Some (r', w')"
proof -
  have "deref w pList \<noteq> None" using assms by (auto simp: deref_def split: option.splits)
  then obtain r0 w0 where pre: "pagelist_prelude e w pList = Some (r0, w0)"
    using pagelist_prelude_Some by blast
  have pw: "pages w0 = pages w" by (rule pagelist_prelude_state(1) [OF pre])
  then have ch: "dirty_chain (pages w0) pList (a # as)" using assms by simp
  then have "\<forall>b \<in> set (a # as). pages w0 b \<noteq> None" by (rule dirty_chain_pages)
  then obtain r' w' where "pagelist_run e r0 w0 (a # as) = Some (r', w')"
    using pagelist_run_Some by blast
  moreover have "pagelist_loop e r0 w0 pList = pagelist_run e r0 w0 (a # as)"
    using ch by (rule pagelist_loop_chain)
  ultimately show ?thesis using pre by (simp add: pager_write_pagelist_def)
qed

lemma pager_write_pagelist_links:
  assumes "dirty_chain (pages w) pList as"
    and "pager_write_pagelist e w pList = Some (r', w')"
  shows "links (pages w') = links (pages w)"
proof -
  from assms obtain r0 w0 where pre: "pagelist_prelude e w pList = Some (r0, w0)"
    and run: "pagelist_run e r0 w0 as = Some (r', w')" by (rule pager_write_pagelist_run)
  show ?thesis using pagelist_run_links [OF run] pagelist_prelude_state(1) [OF pre] by simp
qed

lemma pager_write_pagelist_pager:
  assumes "dirty_chain (pages w) pList as"
    and "pager_write_pagelist e w pList = Some (r', w')"
  shows "dbSize (pager w') = dbSize (pager w) \<and> pageSize (pager w') = pageSize (pager w)
       \<and> errCode (pager w') = errCode (pager w) \<and> eState (pager w') = eState (pager w)
       \<and> aStat (pager w') PAGER_STAT_SPILL = aStat (pager w) PAGER_STAT_SPILL"
proof -
  from assms obtain r0 w0 where pre: "pagelist_prelude e w pList = Some (r0, w0)"
    and run: "pagelist_run e r0 w0 as = Some (r', w')" by (rule pager_write_pagelist_run)
  show ?thesis using pagelist_run_pager [OF run] pagelist_prelude_state [OF pre] by simp
qed

lemma prelude_tests:
  assumes "pagelist_prelude e w pList = Some (r0, w0)"
  shows "passes_write_test w0 = passes_write_test w" and "page_offset w0 = page_offset w"
    and "pg_flags w0 = pg_flags w"
proof -
  have pw: "pages w0 = pages w" by (rule pagelist_prelude_state(1) [OF assms])
  then have lk: "links (pages w0) = links (pages w)" by simp
  show "passes_write_test w0 = passes_write_test w"
    by (rule ext) (rule passes_write_test_cong [OF lk pagelist_prelude_state(3) [OF assms]])
  show "page_offset w0 = page_offset w"
    by (rule ext) (rule page_offset_cong [OF lk pagelist_prelude_state(4) [OF assms]])
  show "pg_flags w0 = pg_flags w"
    by (rule ext) (rule pg_flags_links [OF lk])
qed

lemma pager_write_pagelist_calls:
  assumes "dirty_chain (pages w) pList as"
    and "pager_write_pagelist e w pList = Some (r', w')"
  shows "\<exists>cs n. calls w' = calls w @ cs
           \<and> (\<forall>c \<in> set cs. c = Call_pagerOpentemp \<or> (\<exists>z. c = Call_sqlite3OsFileControlHint z)
                              \<or> write_or_backup c)
           \<and> n \<le> length as
           \<and> map (\<lambda>(b, k, off). (k, off)) (os_writes cs) =
               map (\<lambda>a. (pageSize (pager w), page_offset w a))
                   (filter (passes_write_test w) (take n as))
           \<and> (r' = SQLITE_OK \<longrightarrow> n = length as)"
proof -
  from assms obtain r0 w0 where pre: "pagelist_prelude e w pList = Some (r0, w0)"
    and run: "pagelist_run e r0 w0 as = Some (r', w')" by (rule pager_write_pagelist_run)
  from pagelist_prelude_calls [OF pre] obtain cs0 where
    p: "calls w0 = calls w @ cs0" "os_writes cs0 = []"
       "\<forall>c \<in> set cs0. c = Call_pagerOpentemp \<or> (\<exists>z. c = Call_sqlite3OsFileControlHint z)"
    by blast
  from pagelist_run_calls [OF run] obtain cs n where
    q: "calls w' = calls w0 @ cs" "list_all write_or_backup cs" "n \<le> length as"
       "map (\<lambda>(b, k, off). (k, off)) (os_writes cs) =
               map (\<lambda>a. (pageSize (pager w), page_offset w a))
                   (filter (passes_write_test w) (take n as))"
       "r0 = SQLITE_OK \<and> r' = SQLITE_OK \<longrightarrow> n = length as"
    unfolding prelude_tests [OF pre] pagelist_prelude_state(4) [OF pre] by blast
  have r0: "r' = SQLITE_OK \<longrightarrow> r0 = SQLITE_OK"
  proof (cases "r0 = SQLITE_OK")
    case False
    from pagelist_run_stopped [OF run False] have "r' = r0" by (rule conjunct1)
    with False show ?thesis by simp
  qed simp
  have c1: "calls w' = calls w @ (cs0 @ cs)" using p(1) q(1) by simp
  have c2: "\<forall>c \<in> set (cs0 @ cs). c = Call_pagerOpentemp
              \<or> (\<exists>z. c = Call_sqlite3OsFileControlHint z) \<or> write_or_backup c"
    using p(3) q(2) by (auto simp: list_all_iff)
  have c3: "map (\<lambda>(b, k, off). (k, off)) (os_writes (cs0 @ cs)) =
               map (\<lambda>a. (pageSize (pager w), page_offset w a))
                   (filter (passes_write_test w) (take n as))"
    using p(2) q(4) by simp
  have c5: "r' = SQLITE_OK \<longrightarrow> n = length as" using q(5) r0 by simp
  show ?thesis using c1 c2 c3 q(3) c5 by blast
qed

lemma pager_write_pagelist_asserts:
  assumes "dirty_chain (pages w) pList as"
    and "pager_write_pagelist e w pList = Some (r', w')"
  shows "\<exists>fs. failed_asserts w' = failed_asserts w @ fs
           \<and> set fs \<subseteq> {141, 142, 143, 144, 151, 158, 181}
           \<and> ((\<forall>a \<in> set as. passes_write_test w a \<longrightarrow> PGHDR_NEED_SYNC \<notin> pg_flags w a)
                \<longrightarrow> 181 \<notin> set fs)"
proof -
  from assms obtain r0 w0 where pre: "pagelist_prelude e w pList = Some (r0, w0)"
    and run: "pagelist_run e r0 w0 as = Some (r', w')" by (rule pager_write_pagelist_run)
  from pagelist_prelude_asserts [OF pre] obtain fs0 where
    p: "failed_asserts w0 = failed_asserts w @ fs0" "set fs0 \<subseteq> {141, 142, 143, 144, 151, 158}"
    by blast
  from pagelist_run_asserts [OF run] obtain fs where
    q: "failed_asserts w' = failed_asserts w0 @ fs" "set fs \<subseteq> {181}"
       "(\<forall>a \<in> set as. passes_write_test w a \<longrightarrow> PGHDR_NEED_SYNC \<notin> pg_flags w a) \<longrightarrow> fs = []"
    unfolding prelude_tests [OF pre] by blast
  have c1: "failed_asserts w' = failed_asserts w @ (fs0 @ fs)" using p(1) q(1) by simp
  have c2: "set (fs0 @ fs) \<subseteq> {141, 142, 143, 144, 151, 158, 181}" using p(2) q(2) by auto
  have c3: "(\<forall>a \<in> set as. passes_write_test w a \<longrightarrow> PGHDR_NEED_SYNC \<notin> pg_flags w a)
              \<longrightarrow> 181 \<notin> set (fs0 @ fs)"
    using p(2) q(3) by auto
  show ?thesis using c1 c2 c3 by blast
qed

lemma pager_write_pagelist_dbfile_frame:
  assumes "dirty_chain (pages w) pList as"
    and "pager_write_pagelist e w pList = Some (r', w')"
    and "\<forall>a \<in> set as. passes_write_test w a \<longrightarrow>
           \<not> (sint (page_offset w a) \<le> x \<and> x < sint (page_offset w a) + sint (pageSize (pager w)))"
  shows "dbfile w' x = dbfile w x"
proof -
  from assms(1,2) obtain r0 w0 where pre: "pagelist_prelude e w pList = Some (r0, w0)"
    and run: "pagelist_run e r0 w0 as = Some (r', w')" by (rule pager_write_pagelist_run)
  have "\<forall>a \<in> set as. passes_write_test w0 a \<longrightarrow>
           \<not> (sint (page_offset w0 a) \<le> x
               \<and> x < sint (page_offset w0 a) + sint (pageSize (pager w0)))"
    unfolding prelude_tests [OF pre] pagelist_prelude_state(4) [OF pre] by (rule assms(3))
  from pagelist_run_dbfile_frame [OF run this] show ?thesis
    using pagelist_prelude_state(2) [OF pre] by simp
qed

section \<open>A failed write ends the loop and is the result\<close>

lemma pagelist_run_failed_write:
  assumes "pagelist_run e r w as = Some (r', w')" and "calls w' = calls w @ cs"
    and "(buf, k, off) \<in> set (os_writes cs)" and "rc_OsWrite e off \<noteq> SQLITE_OK"
  shows "r' = rc_OsWrite e off"
  using assms
proof (induction as arbitrary: r w cs)
  case Nil
  then have "Some (r, w) = Some (r', w')" by simp
  then have "r = r' \<and> w = w'" by (rule Some_pair_eqD)
  then have "calls w' = calls w" by simp
  with Nil.prems(2) have "cs = []" by simp
  with Nil.prems(3) show ?case by simp
next
  case (Cons a as)
  from Cons.prems(1) show ?case
  proof (cases rule: pagelist_run_ConsE)
    case stop
    have "calls w' = calls w" unfolding stop(3) by simp
    with Cons.prems(2) have "cs = []" by simp
    with Cons.prems(3) show ?thesis by simp
  next
    case (ret s)
    from pagelist_step_calls' [OF ret(2)] obtain cs1 where
      cs1: "calls (step_world s) = calls w @ cs1"
        "os_writes cs1 = (if passes_write_test w a
                  then (case write_buffer e w a of
                          None \<Rightarrow> []
                        | Some d \<Rightarrow> [(d, pageSize (pager w), page_offset w a)])
                  else [])" by blast
    have nb: "passes_write_test w a \<and> write_buffer e w a = None"
      using pagelist_step_rc(2) [OF ret(2)] ret(3) by blast
    have "calls w' = calls w @ cs1" unfolding ret(5) by (rule cs1(1))
    with Cons.prems(2) have "cs = cs1" by simp
    then have "os_writes cs = []" using cs1(2) nb by simp
    with Cons.prems(3) show ?thesis by simp
  next
    case (cont s)
    let ?ws = "step_world s"
    from pagelist_step_calls' [OF cont(2)] obtain cs1 where
      cs1: "calls ?ws = calls w @ cs1"
        "os_writes cs1 = (if passes_write_test w a
                  then (case write_buffer e w a of
                          None \<Rightarrow> []
                        | Some d \<Rightarrow> [(d, pageSize (pager w), page_offset w a)])
                  else [])" by blast
    from pagelist_run_calls [OF cont(4)] obtain cs2 where
      cs2: "calls w' = calls ?ws @ cs2" by (elim exE conjE)
    have cs: "cs = cs1 @ cs2" using Cons.prems(2) cs1(1) cs2 by simp
    show ?thesis
    proof (cases "(buf, k, off) \<in> set (os_writes cs1)")
      case True
      have rs: "step_rc s = rc_OsWrite e off"
      proof (cases "passes_write_test w a")
        case False
        then have "os_writes cs1 = []" using cs1(2) by simp
        with True show ?thesis by simp
      next
        case pt: True
        show ?thesis
        proof (cases "write_buffer e w a")
          case None
          then have "os_writes cs1 = []" using cs1(2) pt by simp
          with True show ?thesis by simp
        next
          case (Some d)
          then have "os_writes cs1 = [(d, pageSize (pager w), page_offset w a)]"
            using cs1(2) pt by simp
          with True have "off = page_offset w a" by simp
          then show ?thesis using pagelist_step_rc(1) [OF cont(2)] pt Some by simp
        qed
      qed
      then have "step_rc s \<noteq> SQLITE_OK" using Cons.prems(4) by simp
      from pagelist_run_stopped [OF cont(4) this] have "r' = step_rc s" by (rule conjunct1)
      with rs show ?thesis by simp
    next
      case False
      then have "(buf, k, off) \<in> set (os_writes cs2)" using Cons.prems(3) cs by simp
      from Cons.IH [OF cont(4) cs2 this Cons.prems(4)] show ?thesis .
    qed
  qed
qed

lemma pager_write_pagelist_failed_write:
  assumes "dirty_chain (pages w) pList as"
    and "pager_write_pagelist e w pList = Some (r', w')" and "calls w' = calls w @ cs"
    and "(buf, k, off) \<in> set (os_writes cs)" and "rc_OsWrite e off \<noteq> SQLITE_OK"
  shows "r' = rc_OsWrite e off"
proof -
  from assms(1,2) obtain r0 w0 where pre: "pagelist_prelude e w pList = Some (r0, w0)"
    and run: "pagelist_run e r0 w0 as = Some (r', w')" by (rule pager_write_pagelist_run)
  from pagelist_prelude_calls [OF pre] obtain cs0 where
    p: "calls w0 = calls w @ cs0" "os_writes cs0 = []" by blast
  from pagelist_run_calls [OF run] obtain cs1 where q: "calls w' = calls w0 @ cs1"
    by (elim exE conjE)
  have "cs = cs0 @ cs1" using assms(3) p(1) q by simp
  then have "(buf, k, off) \<in> set (os_writes cs1)" using assms(4) p(2) by simp
  from pagelist_run_failed_write [OF run q this assms(5)] show ?thesis .
qed

section \<open>The write offset\<close>

lemma page_offset_sint:
  fixes pn :: Pgno and ps :: u32
  shows "sint ((ucast (pn - 1) :: i64) * scast ps) = uint (pn - 1) * sint ps"
proof -
  have u: "0 \<le> uint (pn - 1)" "uint (pn - 1) < 2 ^ 32"
    using uint_lt2p [of "pn - 1"] by simp_all
  have lo0: "- (2 ^ 63) \<le> uint (pn - 1)"
    by (rule order_trans [of _ 0]) simp_all
  have hi0: "uint (pn - 1) < 2 ^ 63"
    by (rule less_trans [OF u(2)]) simp
  have "signed_take_bit 63 (uint (pn - 1)) = uint (pn - 1)"
    by (rule signed_take_bit_int_eq_self [OF lo0 hi0])
  then have a: "sint (ucast (pn - 1) :: i64) = uint (pn - 1)"
    by (simp add: signed_ucast_eq)
  have b: "sint (scast ps :: i64) = sint ps"
    by (simp add: sint_up_scast is_up)
  have s: "- (2 ^ 31) \<le> sint ps" "sint ps < 2 ^ 31"
    using sint_range_size [of ps] by (simp_all add: word_size)
  have lo: "- (2 ^ 63) \<le> uint (pn - 1) * sint ps"
  proof -
    have "uint (pn - 1) * (- (2 ^ 31)) \<le> uint (pn - 1) * sint ps"
      using u(1) s(1) by (intro mult_left_mono) simp_all
    moreover have "(2 ^ 32) * (- (2 ^ 31)) \<le> uint (pn - 1) * (- (2 ^ 31) :: int)"
      using u(2) by simp
    ultimately show ?thesis by simp
  qed
  have hi: "uint (pn - 1) * sint ps < 2 ^ 63"
  proof -
    have "uint (pn - 1) * sint ps \<le> uint (pn - 1) * 2 ^ 31"
      using u(1) s(2) by (intro mult_left_mono) simp_all
    also have "\<dots> < 2 ^ 32 * 2 ^ 31" using u(2) by simp
    finally show ?thesis by simp
  qed
  have "sint ((ucast (pn - 1) :: i64) * scast ps)
        = signed_take_bit 63 (sint (ucast (pn - 1) :: i64) * sint (scast ps :: i64))"
    by (simp add: sint_word_ariths)
  also have "\<dots> = signed_take_bit 63 (uint (pn - 1) * sint ps)" by (simp only: a b)
  also have "\<dots> = uint (pn - 1) * sint ps"
    using lo hi by (simp add: signed_take_bit_int_eq_self)
  finally show ?thesis .
qed

lemma page_offset_value:
  assumes "pages w a = Some pg"
  shows "sint (page_offset w a) = uint (pgno pg - 1) * sint (pageSize (pager w))"
  using assms by (simp add: page_offset_def page_offset_sint)

lemma uint_pgno_minus_1:
  fixes pn :: Pgno
  assumes "pn \<noteq> 0"
  shows "uint (pn - 1) = uint pn - 1"
proof -
  have "1 \<le> pn" using assms by (simp add: word_le_nat_alt unat_gt_0 Suc_leI unat_eq_zero)
  then show ?thesis by (simp add: uint_minus_simple_alt)
qed

section \<open>Projections of the routines pagerStress calls\<close>

lemma pg_flags_upd_page:
  "pg_flags (upd_page a f w) b
   = (if b = a then (case pages w a of None \<Rightarrow> {} | Some pg \<Rightarrow> flags (f pg)) else pg_flags w b)"
  by (simp add: pg_flags_def split: option.split)

lemma stress_begin_proj [simp]:
  "pages (stress_begin w a) = (pages w)(a := map_option (\<lambda>pg. pg\<lparr>pDirty := None\<rparr>) (pages w a))"
  "dbfile (stress_begin w a) = dbfile w"
  "calls (stress_begin w a) = calls w"
  "failed_asserts (stress_begin w a) = failed_asserts w"
  "pg_flags (stress_begin w a) b = pg_flags w b"
  "aStat (pager (stress_begin w a)) PAGER_STAT_SPILL = aStat (pager w) PAGER_STAT_SPILL + 1"
  "errCode (pager (stress_begin w a)) = errCode (pager w)"
  "eState (pager (stress_begin w a)) = eState (pager w)"
  "pWal (pager (stress_begin w a)) = pWal (pager w)"
  "tempFile (pager (stress_begin w a)) = tempFile (pager w)"
  "pageSize (pager (stress_begin w a)) = pageSize (pager w)"
  "dbSize (pager (stress_begin w a)) = dbSize (pager w)"
  by (simp_all add: stress_begin_def pg_flags_upd_page split: option.split)
     (simp add: pg_flags_def)

lemma sqlite3JournalCreate_proj [simp]:
  "fst (sqlite3JournalCreate e w) = rc_JournalCreate e"
  "snd (sqlite3JournalCreate e w) = log_call Call_sqlite3JournalCreate w"
  by (simp_all add: sqlite3JournalCreate_def)

lemma subjournalPageIfRequired_proj [simp]:
  "fst (subjournalPageIfRequired e w a) = rc_subjournal e"
  "snd (subjournalPageIfRequired e w a) = log_call (Call_subjournalPageIfRequired a) w"
  by (simp_all add: subjournalPageIfRequired_def)

lemma pagerWalFrames_proj [simp]:
  "fst (pagerWalFrames e w a) = rc_WalFrames e"
  "snd (pagerWalFrames e w a) = log_call (Call_pagerWalFrames a) w"
  by (simp_all add: pagerWalFrames_def)

lemma syncJournal_proj [simp]:
  "fst (syncJournal e w) = rc_syncJournal e"
  "dbfile (snd (syncJournal e w)) = dbfile w"
  "calls (snd (syncJournal e w)) = calls w @ [Call_syncJournal]"
  "failed_asserts (snd (syncJournal e w)) = failed_asserts w"
  "pg_flags (snd (syncJournal e w)) b
   = (if rc_syncJournal e = SQLITE_OK then pg_flags w b - {PGHDR_NEED_SYNC} else pg_flags w b)"
  "aStat (pager (snd (syncJournal e w))) = aStat (pager w)"
  "errCode (pager (snd (syncJournal e w))) = errCode (pager w)"
  "pageSize (pager (snd (syncJournal e w))) = pageSize (pager w)"
  "dbSize (pager (snd (syncJournal e w))) = dbSize (pager w)"
  "eState (pager (snd (syncJournal e w)))
   = (if rc_syncJournal e = SQLITE_OK then PAGER_WRITER_DBMOD else eState (pager w))"
  by (simp_all add: syncJournal_def Let_def pg_flags_def split: option.split)

lemma syncJournal_pages:
  "pages (snd (syncJournal e w)) b
   = (if rc_syncJournal e = SQLITE_OK
      then map_option (\<lambda>pg. pg\<lparr>flags := flags pg - {PGHDR_NEED_SYNC}\<rparr>) (pages w b)
      else pages w b)"
  by (simp add: syncJournal_def Let_def)

lemma pager_error_proj [simp]:
  "fst (pager_error w r) = r"
  "pages (snd (pager_error w r)) = pages w"
  "dbfile (snd (pager_error w r)) = dbfile w"
  "calls (snd (pager_error w r)) = calls w"
  "failed_asserts (snd (pager_error w r)) = failed_asserts w"
  "pg_flags (snd (pager_error w r)) b = pg_flags w b"
  "aStat (pager (snd (pager_error w r))) = aStat (pager w)"
  "errCode (pager (snd (pager_error w r))) = (if io_or_full r then r else errCode (pager w))"
  "eState (pager (snd (pager_error w r)))
   = (if io_or_full r then PAGER_ERROR else eState (pager w))"
  by (simp_all add: pager_error_def pg_flags_def)

lemma sqlite3PcacheMakeClean_proj [simp]:
  "pager (sqlite3PcacheMakeClean w a) = pager w"
  "dbfile (sqlite3PcacheMakeClean w a) = dbfile w"
  "calls (sqlite3PcacheMakeClean w a) = calls w @ [Call_sqlite3PcacheMakeClean a]"
  "failed_asserts (sqlite3PcacheMakeClean w a) = failed_asserts w"
  "pg_flags (sqlite3PcacheMakeClean w a) b
   = (if b = a then pg_flags w b - {PGHDR_DIRTY, PGHDR_NEED_SYNC} else pg_flags w b)"
  by (simp_all add: sqlite3PcacheMakeClean_def pg_flags_upd_page)
     (simp add: pg_flags_def split: option.split)

lemma stress_finish_proj [simp]:
  "fst (stress_finish w a r) = r"
  "dbfile (snd (stress_finish w a r)) = dbfile w"
  "calls (snd (stress_finish w a r))
   = calls w @ (if r = SQLITE_OK then [Call_sqlite3PcacheMakeClean a] else [])"
  "failed_asserts (snd (stress_finish w a r)) = failed_asserts w"
  "pg_flags (snd (stress_finish w a r)) b
   = (if r = SQLITE_OK \<and> b = a then pg_flags w b - {PGHDR_DIRTY, PGHDR_NEED_SYNC}
      else pg_flags w b)"
  "aStat (pager (snd (stress_finish w a r))) = aStat (pager w)"
  "errCode (pager (snd (stress_finish w a r))) = (if io_or_full r then r else errCode (pager w))"
  "eState (pager (snd (stress_finish w a r)))
   = (if io_or_full r then PAGER_ERROR else eState (pager w))"
  by (simp_all add: stress_finish_def)

section \<open>The paths through pagerStress\<close>

lemma pagerStress_refused:
  assumes "pages w a = Some pg"
    and "errCode (pager w) \<noteq> SQLITE_OK \<or> spill_refused (pager w) pg"
  shows "pagerStress e w a = Some (SQLITE_OK, assert_at 35 (PGHDR_DIRTY \<in> flags pg) w)"
  using assms by (auto simp: pagerStress_def Let_def NEVER_def spill_refused_def)

lemma pagerStress_wal:
  assumes "pages w a = Some pg" and "errCode (pager w) = SQLITE_OK"
    and "\<not> spill_refused (pager w) pg" and "pWal (pager w)"
  shows "pagerStress e w a =
           Some (stress_finish
                  (if rc_subjournal e = SQLITE_OK
                   then log_call (Call_pagerWalFrames a) (log_call (Call_subjournalPageIfRequired a)
                          (stress_begin (assert_at 35 (PGHDR_DIRTY \<in> flags pg) w) a))
                   else log_call (Call_subjournalPageIfRequired a)
                          (stress_begin (assert_at 35 (PGHDR_DIRTY \<in> flags pg) w) a))
                  a
                  (if rc_subjournal e = SQLITE_OK then rc_WalFrames e else rc_subjournal e))"
  using assms
  by (auto simp: pagerStress_def Let_def NEVER_def spill_refused_def split_beta)


lemma pagerStress_journal_create_fails:
  assumes "pages w a = Some pg" and "errCode (pager w) = SQLITE_OK"
    and "\<not> spill_refused (pager w) pg" and "\<not> pWal (pager w)"
    and "batch_atomic_write e \<and> \<not> tempFile (pager w)" and "rc_JournalCreate e \<noteq> SQLITE_OK"
  shows "pagerStress e w a =
           Some (pager_error
                  (log_call Call_sqlite3JournalCreate
                     (stress_begin (assert_at 35 (PGHDR_DIRTY \<in> flags pg) w) a))
                  (rc_JournalCreate e))"
  using assms
  by (auto simp: pagerStress_def Let_def NEVER_def spill_refused_def split_beta)

text \<open>The state in which the journal is synced, or the page list is written if no sync is due.\<close>

lemma pagerStress_sync_fails:
  assumes "pages w a = Some pg" and "errCode (pager w) = SQLITE_OK"
    and "\<not> spill_refused (pager w) pg" and "\<not> pWal (pager w)"
    and "batch_atomic_write e \<and> \<not> tempFile (pager w) \<longrightarrow> rc_JournalCreate e = SQLITE_OK"
    and "sync_required (pager w) pg" and "rc_syncJournal e \<noteq> SQLITE_OK"
  shows "pagerStress e w a =
           Some (stress_finish
                  (snd (syncJournal e
                     (if batch_atomic_write e \<and> \<not> tempFile (pager w)
                      then log_call Call_sqlite3JournalCreate
                             (stress_begin (assert_at 35 (PGHDR_DIRTY \<in> flags pg) w) a)
                      else stress_begin (assert_at 35 (PGHDR_DIRTY \<in> flags pg) w) a)))
                  a (rc_syncJournal e))"
  using assms
  by (auto simp: pagerStress_def Let_def NEVER_def spill_refused_def sync_required_def
        split_beta pg_flags_def)

lemma pagerStress_writes:
  assumes "pages w a = Some pg" and "errCode (pager w) = SQLITE_OK"
    and "\<not> spill_refused (pager w) pg" and "\<not> pWal (pager w)"
    and "batch_atomic_write e \<and> \<not> tempFile (pager w) \<longrightarrow> rc_JournalCreate e = SQLITE_OK"
    and "sync_required (pager w) pg \<longrightarrow> rc_syncJournal e = SQLITE_OK"
  shows "pagerStress e w a =
           (case pager_write_pagelist e (stress_write_state e w a pg) (Some a) of
              None \<Rightarrow> None
            | Some (r', w5) \<Rightarrow> Some (stress_finish w5 a r'))"
  using assms
  by (auto simp: pagerStress_def Let_def NEVER_def spill_refused_def sync_required_def
        split_beta pg_flags_def stress_write_state_def)

lemma stress_write_state_facts:
  assumes "pages w a = Some pg"
    and "sync_required (pager w) pg \<longrightarrow> rc_syncJournal e = SQLITE_OK"
  shows "calls (stress_write_state e w a pg)
           = calls w @ (if batch_atomic_write e \<and> \<not> tempFile (pager w)
                        then [Call_sqlite3JournalCreate] else [])
                     @ (if sync_required (pager w) pg then [Call_syncJournal] else [])"
    and "failed_asserts (stress_write_state e w a pg)
           = failed_asserts w @ (if PGHDR_DIRTY \<in> flags pg then [] else [35])"
    and "pg_flags (stress_write_state e w a pg) b
           = (if sync_required (pager w) pg then pg_flags w b - {PGHDR_NEED_SYNC}
              else pg_flags w b)"
    and "PGHDR_NEED_SYNC \<notin> pg_flags (stress_write_state e w a pg) a"
    and "dbfile (stress_write_state e w a pg) = dbfile w"
    and "aStat (pager (stress_write_state e w a pg)) PAGER_STAT_SPILL
           = aStat (pager w) PAGER_STAT_SPILL + 1"
    and "errCode (pager (stress_write_state e w a pg)) = errCode (pager w)"
    and "pageSize (pager (stress_write_state e w a pg)) = pageSize (pager w)"
    and "dbSize (pager (stress_write_state e w a pg)) = dbSize (pager w)"
    and "eState (pager (stress_write_state e w a pg))
           = (if sync_required (pager w) pg then PAGER_WRITER_DBMOD else eState (pager w))"
proof -
  have fl: "pg_flags w a = flags pg" using assms(1) by (simp add: pg_flags_def)
  show "calls (stress_write_state e w a pg)
           = calls w @ (if batch_atomic_write e \<and> \<not> tempFile (pager w)
                        then [Call_sqlite3JournalCreate] else [])
                     @ (if sync_required (pager w) pg then [Call_syncJournal] else [])"
    by (simp add: stress_write_state_def Let_def)
  show "failed_asserts (stress_write_state e w a pg)
           = failed_asserts w @ (if PGHDR_DIRTY \<in> flags pg then [] else [35])"
    using assms(2) fl by (auto simp: stress_write_state_def Let_def sync_required_def)
  show "pg_flags (stress_write_state e w a pg) b
           = (if sync_required (pager w) pg then pg_flags w b - {PGHDR_NEED_SYNC}
              else pg_flags w b)"
    using assms(2) by (simp add: stress_write_state_def Let_def)
  show "PGHDR_NEED_SYNC \<notin> pg_flags (stress_write_state e w a pg) a"
    using assms(2) fl by (auto simp: stress_write_state_def Let_def sync_required_def)
  show "dbfile (stress_write_state e w a pg) = dbfile w"
    by (simp add: stress_write_state_def Let_def)
  show "aStat (pager (stress_write_state e w a pg)) PAGER_STAT_SPILL
           = aStat (pager w) PAGER_STAT_SPILL + 1"
    by (simp add: stress_write_state_def Let_def)
  show "errCode (pager (stress_write_state e w a pg)) = errCode (pager w)"
    by (simp add: stress_write_state_def Let_def)
  show "pageSize (pager (stress_write_state e w a pg)) = pageSize (pager w)"
    by (simp add: stress_write_state_def Let_def)
  show "dbSize (pager (stress_write_state e w a pg)) = dbSize (pager w)"
    by (simp add: stress_write_state_def Let_def)
  show "eState (pager (stress_write_state e w a pg))
           = (if sync_required (pager w) pg then PAGER_WRITER_DBMOD else eState (pager w))"
    using assms(2) by (simp add: stress_write_state_def Let_def)
qed



lemma stress_write_state_page:
  assumes "pages w a = Some pg"
  shows "\<exists>pg'. pages (stress_write_state e w a pg) a = Some pg' \<and> pDirty pg' = None
              \<and> pgno pg' = pgno pg \<and> flags pg' \<subseteq> flags pg"
  using assms
  by (auto simp: stress_write_state_def Let_def syncJournal_pages)

lemma stress_write_state_chain:
  assumes "pages w a = Some pg"
  shows "dirty_chain (pages (stress_write_state e w a pg)) (Some a) [a]"
proof -
  from stress_write_state_page [OF assms] obtain pg' where
    "pages (stress_write_state e w a pg) a = Some pg'" "pDirty pg' = None" by blast
  then show ?thesis by simp
qed

lemma stress_write_state_offset:
  assumes "pages w a = Some pg"
    and "sync_required (pager w) pg \<longrightarrow> rc_syncJournal e = SQLITE_OK"
  shows "page_offset (stress_write_state e w a pg) a = page_offset w a"
proof -
  from stress_write_state_page [OF assms(1)] obtain pg' where
    "pages (stress_write_state e w a pg) a = Some pg'" "pgno pg' = pgno pg" by blast
  then show ?thesis
    using assms(1) stress_write_state_facts(8) [OF assms] by (simp add: page_offset_def)
qed

lemma single_write_shape:
  assumes "map (\<lambda>(b, k, off). (k, off)) ws = map f (filter P (take n [a]))"
  shows "ws = [] \<or> (\<exists>buf. ws = [(buf, fst (f a), snd (f a))])"
proof (cases ws)
  case Nil
  then show ?thesis by simp
next
  case (Cons x xs)
  obtain buf k off where x: "x = (buf, k, off)" by (cases x)
  have l: "length (map f (filter P (take n [a]))) \<le> 1"
    by (simp add: le_trans [OF length_filter_le])
  have "length ws \<le> 1" using l assms by (metis length_map)
  then have xs: "xs = []" using Cons by simp
  have ne: "filter P (take n [a]) \<noteq> []" using assms Cons by auto
  have "set (filter P (take n [a])) \<subseteq> {a}" by (auto dest: in_set_takeD)
  moreover have "length (filter P (take n [a])) \<le> 1" using l by simp
  ultimately have "filter P (take n [a]) = [a]" using ne
    by (cases "filter P (take n [a])") auto
  then have "(k, off) = f a" using assms Cons xs x by simp
  then show ?thesis using Cons xs x by (metis fst_conv snd_conv)
qed

lemma pagerStress_write_path:
  assumes "pages w a = Some pg" and "errCode (pager w) = SQLITE_OK"
    and "\<not> spill_refused (pager w) pg" and "\<not> pWal (pager w)"
    and "batch_atomic_write e \<and> \<not> tempFile (pager w) \<longrightarrow> rc_JournalCreate e = SQLITE_OK"
    and "sync_required (pager w) pg \<longrightarrow> rc_syncJournal e = SQLITE_OK"
  obtains r5 w5 cs fs where
    "pagerStress e w a = Some (stress_finish w5 a r5)"
    "calls w5 = calls w @ (if batch_atomic_write e \<and> \<not> tempFile (pager w)
                            then [Call_sqlite3JournalCreate] else [])
                         @ (if sync_required (pager w) pg then [Call_syncJournal] else [])
                         @ cs"
    "\<forall>c \<in> set cs. c = Call_pagerOpentemp \<or> (\<exists>z. c = Call_sqlite3OsFileControlHint z)
                    \<or> write_or_backup c"
    "os_writes cs = [] \<or> (\<exists>buf. os_writes cs = [(buf, pageSize (pager w), page_offset w a)])"
    "\<forall>buf k off. (buf, k, off) \<in> set (os_writes cs) \<longrightarrow> rc_OsWrite e off \<noteq> SQLITE_OK
                   \<longrightarrow> r5 = rc_OsWrite e off"
    "failed_asserts w5 = failed_asserts w @ fs" "90 \<notin> set fs" "181 \<notin> set fs"
    "\<forall>b. pg_flags w5 b = (if sync_required (pager w) pg then pg_flags w b - {PGHDR_NEED_SYNC}
                           else pg_flags w b)"
    "\<forall>x. \<not> (sint (page_offset w a) \<le> x \<and> x < sint (page_offset w a) + sint (pageSize (pager w)))
          \<longrightarrow> dbfile w5 x = dbfile w x"
    "aStat (pager w5) PAGER_STAT_SPILL = aStat (pager w) PAGER_STAT_SPILL + 1"
    "errCode (pager w5) = SQLITE_OK"
    "eState (pager w5) = (if sync_required (pager w) pg then PAGER_WRITER_DBMOD
                          else eState (pager w))"
proof -
  let ?W = "stress_write_state e w a pg"
  note sy = assms(6)
  note F = stress_write_state_facts [OF assms(1) sy]
  have ch: "dirty_chain (pages ?W) (Some a) [a]" by (rule stress_write_state_chain [OF assms(1)])
  from pager_write_pagelist_Some [OF ch] obtain r5 w5 where
    res: "pager_write_pagelist e ?W (Some a) = Some (r5, w5)" by blast
  have po: "page_offset ?W a = page_offset w a"
    by (rule stress_write_state_offset [OF assms(1) sy])
  have c1: "pagerStress e w a = Some (stress_finish w5 a r5)"
    using pagerStress_writes [OF assms] res by simp
  from pager_write_pagelist_calls [OF ch res] obtain cs n where
    cs: "calls w5 = calls ?W @ cs"
      "\<forall>c \<in> set cs. c = Call_pagerOpentemp \<or> (\<exists>z. c = Call_sqlite3OsFileControlHint z)
                    \<or> write_or_backup c"
      "map (\<lambda>(b, k, off). (k, off)) (os_writes cs) =
               map (\<lambda>a. (pageSize (pager ?W), page_offset ?W a))
                   (filter (passes_write_test ?W) (take n [a]))"
    by blast
  have c2: "calls w5 = calls w @ (if batch_atomic_write e \<and> \<not> tempFile (pager w)
                            then [Call_sqlite3JournalCreate] else [])
                         @ (if sync_required (pager w) pg then [Call_syncJournal] else [])
                         @ cs"
    using cs(1) F(1) by simp
  have c4: "os_writes cs = [] \<or> (\<exists>buf. os_writes cs = [(buf, pageSize (pager w), page_offset w a)])"
    using single_write_shape [OF cs(3)] po F(8) by simp
  have c5: "\<forall>buf k off. (buf, k, off) \<in> set (os_writes cs) \<longrightarrow> rc_OsWrite e off \<noteq> SQLITE_OK
                   \<longrightarrow> r5 = rc_OsWrite e off"
    using pager_write_pagelist_failed_write [OF ch res cs(1)] by blast
  from pager_write_pagelist_asserts [OF ch res] obtain fs where
    fs: "failed_asserts w5 = failed_asserts ?W @ fs"
      "set fs \<subseteq> {141, 142, 143, 144, 151, 158, 181}"
      "(\<forall>b \<in> set [a]. passes_write_test ?W b \<longrightarrow> PGHDR_NEED_SYNC \<notin> pg_flags ?W b)
                \<longrightarrow> 181 \<notin> set fs"
    by blast
  let ?fs = "(if PGHDR_DIRTY \<in> flags pg then [] else [35]) @ fs"
  have c6: "failed_asserts w5 = failed_asserts w @ ?fs" using fs(1) F(2) by simp
  have c7: "90 \<notin> set ?fs" using fs(2) by auto
  have c8: "181 \<notin> set ?fs" using fs(3) F(4) by auto
  have lk: "links (pages w5) = links (pages ?W)"
    by (rule pager_write_pagelist_links [OF ch res])
  have c9: "\<forall>b. pg_flags w5 b = (if sync_required (pager w) pg
                                   then pg_flags w b - {PGHDR_NEED_SYNC} else pg_flags w b)"
    using pg_flags_links [OF lk] F(3) by simp
  have c10: "\<forall>x. \<not> (sint (page_offset w a) \<le> x
                     \<and> x < sint (page_offset w a) + sint (pageSize (pager w)))
          \<longrightarrow> dbfile w5 x = dbfile w x"
  proof (intro allI impI)
    fix x
    assume "\<not> (sint (page_offset w a) \<le> x
                     \<and> x < sint (page_offset w a) + sint (pageSize (pager w)))"
    then have "\<forall>b \<in> set [a]. passes_write_test ?W b \<longrightarrow>
           \<not> (sint (page_offset ?W b) \<le> x
               \<and> x < sint (page_offset ?W b) + sint (pageSize (pager ?W)))"
      using po F(8) by simp
    from pager_write_pagelist_dbfile_frame [OF ch res this] show "dbfile w5 x = dbfile w x"
      using F(5) by simp
  qed
  note P = pager_write_pagelist_pager [OF ch res]
  have c11: "aStat (pager w5) PAGER_STAT_SPILL = aStat (pager w) PAGER_STAT_SPILL + 1"
    using P F(6) by simp
  have c12: "errCode (pager w5) = SQLITE_OK" using P F(7) assms(2) by simp
  have c13: "eState (pager w5) = (if sync_required (pager w) pg then PAGER_WRITER_DBMOD
                          else eState (pager w))"
    using P F(10) by simp
  show ?thesis using that [OF c1 c2 cs(2) c4 c5 c6 c7 c8 c9 c10 c11 c12 c13] .
qed

section \<open>What a spill does, on every path\<close>

lemma io_or_full_iff: "io_or_full r = (r = SQLITE_FULL \<or> (\<exists>k. r = SQLITE_IOERR k))"
  by (cases r) simp_all

lemma pagerStress_spillE:
  assumes "pages w a = Some pg" and "errCode (pager w) = SQLITE_OK"
    and "\<not> spill_refused (pager w) pg"
  obtains r w' cs fs where
    "pagerStress e w a = Some (r, w')"
    "calls w' = calls w @ cs"
    "failed_asserts w' = failed_asserts w @ fs" "90 \<notin> set fs" "181 \<notin> set fs"
    "aStat (pager w') PAGER_STAT_SPILL = aStat (pager w) PAGER_STAT_SPILL + 1"
    "r = SQLITE_OK \<longrightarrow> Call_sqlite3PcacheMakeClean a \<in> set cs
                       \<and> PGHDR_DIRTY \<notin> pg_flags w' a \<and> PGHDR_NEED_SYNC \<notin> pg_flags w' a"
    "r \<noteq> SQLITE_OK \<longrightarrow> Call_sqlite3PcacheMakeClean a \<notin> set cs
                       \<and> (PGHDR_DIRTY \<in> flags pg \<longrightarrow> PGHDR_DIRTY \<in> pg_flags w' a)"
    "errCode (pager w') = (if io_or_full r then r else SQLITE_OK)"
    "io_or_full r \<longrightarrow> eState (pager w') = PAGER_ERROR"
    "pWal (pager w) \<longrightarrow>
       r = (if rc_subjournal e = SQLITE_OK then rc_WalFrames e else rc_subjournal e)"
    "\<not> pWal (pager w) \<and> (batch_atomic_write e \<and> \<not> tempFile (pager w)
         \<longrightarrow> rc_JournalCreate e = SQLITE_OK)
       \<and> sync_required (pager w) pg \<and> rc_syncJournal e \<noteq> SQLITE_OK
     \<longrightarrow> r = rc_syncJournal e"
    "\<forall>buf k off. (buf, k, off) \<in> set (os_writes cs) \<longrightarrow> rc_OsWrite e off \<noteq> SQLITE_OK
                   \<longrightarrow> r = rc_OsWrite e off"
    "os_writes cs = [] \<or> (\<exists>buf. os_writes cs = [(buf, pageSize (pager w), page_offset w a)])"
    "os_writes cs \<noteq> [] \<longrightarrow> \<not> pWal (pager w)
        \<and> (sync_required (pager w) pg
             \<longrightarrow> rc_syncJournal e = SQLITE_OK
                 \<and> (\<exists>cs1 cs2. cs = cs1 @ Call_syncJournal # cs2 \<and> os_writes cs1 = []))"
    "\<forall>b. b \<noteq> a \<longrightarrow> pg_flags w' b =
            (if Call_syncJournal \<in> set cs \<and> rc_syncJournal e = SQLITE_OK
             then pg_flags w b - {PGHDR_NEED_SYNC} else pg_flags w b)"
    "\<forall>x. \<not> (sint (page_offset w a) \<le> x \<and> x < sint (page_offset w a) + sint (pageSize (pager w)))
          \<longrightarrow> dbfile w' x = dbfile w x"
proof -
  have fl: "pg_flags w a = flags pg" using assms(1) by (simp add: pg_flags_def)
  let ?w2 = "stress_begin (assert_at 35 (PGHDR_DIRTY \<in> flags pg) w) a"
  let ?f35 = "if PGHDR_DIRTY \<in> flags pg then [] else [35::nat]"
  show ?thesis
  proof (cases "pWal (pager w)")
    case True
    let ?w4 = "if rc_subjournal e = SQLITE_OK
                   then log_call (Call_pagerWalFrames a) (log_call (Call_subjournalPageIfRequired a) ?w2)
                   else log_call (Call_subjournalPageIfRequired a) ?w2"
    let ?r = "if rc_subjournal e = SQLITE_OK then rc_WalFrames e else rc_subjournal e"
    let ?cs4 = "if rc_subjournal e = SQLITE_OK
                then [Call_subjournalPageIfRequired a, Call_pagerWalFrames a]
                else [Call_subjournalPageIfRequired a]"
    let ?cs = "?cs4 @ (if ?r = SQLITE_OK then [Call_sqlite3PcacheMakeClean a] else [])"
    let ?w' = "snd (stress_finish ?w4 a ?r)"
    have e1: "pagerStress e w a = Some (?r, ?w')"
      using pagerStress_wal [OF assms True, of e] by (simp add: prod_eq_iff)
    have e2: "calls ?w' = calls w @ ?cs" by simp
    have e3: "failed_asserts ?w' = failed_asserts w @ ?f35" by simp
    have e4: "90 \<notin> set ?f35" "181 \<notin> set ?f35" by simp_all
    have e5: "aStat (pager ?w') PAGER_STAT_SPILL = aStat (pager w) PAGER_STAT_SPILL + 1" by simp
    have e6: "?r = SQLITE_OK \<longrightarrow> Call_sqlite3PcacheMakeClean a \<in> set ?cs
                       \<and> PGHDR_DIRTY \<notin> pg_flags ?w' a \<and> PGHDR_NEED_SYNC \<notin> pg_flags ?w' a"
      by simp
    have e7: "?r \<noteq> SQLITE_OK \<longrightarrow> Call_sqlite3PcacheMakeClean a \<notin> set ?cs
                       \<and> (PGHDR_DIRTY \<in> flags pg \<longrightarrow> PGHDR_DIRTY \<in> pg_flags ?w' a)"
      using fl by simp
    have e8: "errCode (pager ?w') = (if io_or_full ?r then ?r else SQLITE_OK)"
      using assms(2) by simp
    have e9: "io_or_full ?r \<longrightarrow> eState (pager ?w') = PAGER_ERROR" by simp
    have e10: "os_writes ?cs = []" by simp
    have e11: "\<forall>b. b \<noteq> a \<longrightarrow> pg_flags ?w' b =
            (if Call_syncJournal \<in> set ?cs \<and> rc_syncJournal e = SQLITE_OK
             then pg_flags w b - {PGHDR_NEED_SYNC} else pg_flags w b)" by simp
    have e12: "\<forall>x. dbfile ?w' x = dbfile w x" by simp
    show ?thesis
      by (rule that [OF e1 e2 e3 e4 e5 e6 e7 e8 e9]) (use True e10 e11 e12 in simp_all)
  next
    case nw: False
    let ?jc = "if batch_atomic_write e \<and> \<not> tempFile (pager w)
               then [Call_sqlite3JournalCreate] else []"
    show ?thesis
    proof (cases "batch_atomic_write e \<and> \<not> tempFile (pager w)
                  \<and> rc_JournalCreate e \<noteq> SQLITE_OK")
      case jf: True
      let ?r = "rc_JournalCreate e"
      let ?w' = "snd (pager_error (log_call Call_sqlite3JournalCreate ?w2) ?r)"
      let ?cs = "[Call_sqlite3JournalCreate]"
      have e1: "pagerStress e w a = Some (?r, ?w')"
        using pagerStress_journal_create_fails [OF assms nw, of e] jf by (simp add: prod_eq_iff)
      have e2: "calls ?w' = calls w @ ?cs" by simp
      have e3: "failed_asserts ?w' = failed_asserts w @ ?f35" by simp
      have e4: "90 \<notin> set ?f35" "181 \<notin> set ?f35" by simp_all
      have e5: "aStat (pager ?w') PAGER_STAT_SPILL = aStat (pager w) PAGER_STAT_SPILL + 1"
        by simp
      have e6: "?r = SQLITE_OK \<longrightarrow> Call_sqlite3PcacheMakeClean a \<in> set ?cs
                       \<and> PGHDR_DIRTY \<notin> pg_flags ?w' a \<and> PGHDR_NEED_SYNC \<notin> pg_flags ?w' a"
        using jf by simp
      have e7: "?r \<noteq> SQLITE_OK \<longrightarrow> Call_sqlite3PcacheMakeClean a \<notin> set ?cs
                       \<and> (PGHDR_DIRTY \<in> flags pg \<longrightarrow> PGHDR_DIRTY \<in> pg_flags ?w' a)"
        using fl by simp
      have e8: "errCode (pager ?w') = (if io_or_full ?r then ?r else SQLITE_OK)"
        using assms(2) by simp
      have e9: "io_or_full ?r \<longrightarrow> eState (pager ?w') = PAGER_ERROR" by simp
      have e10: "os_writes ?cs = []" by simp
      have e11: "\<forall>b. b \<noteq> a \<longrightarrow> pg_flags ?w' b =
            (if Call_syncJournal \<in> set ?cs \<and> rc_syncJournal e = SQLITE_OK
             then pg_flags w b - {PGHDR_NEED_SYNC} else pg_flags w b)" by simp
      have e12: "\<forall>x. dbfile ?w' x = dbfile w x" by simp
      show ?thesis
        by (rule that [OF e1 e2 e3 e4 e5 e6 e7 e8 e9]) (use nw jf e10 e11 e12 in simp_all)
    next
      case njf: False
      then have jok: "batch_atomic_write e \<and> \<not> tempFile (pager w)
                        \<longrightarrow> rc_JournalCreate e = SQLITE_OK" by blast
      show ?thesis
      proof (cases "sync_required (pager w) pg \<and> rc_syncJournal e \<noteq> SQLITE_OK")
        case sf: True
        let ?w3 = "if batch_atomic_write e \<and> \<not> tempFile (pager w)
                   then log_call Call_sqlite3JournalCreate ?w2 else ?w2"
        let ?r = "rc_syncJournal e"
        let ?w' = "snd (stress_finish (snd (syncJournal e ?w3)) a ?r)"
        let ?cs = "?jc @ [Call_syncJournal]"
        have e1: "pagerStress e w a = Some (?r, ?w')"
          using pagerStress_sync_fails [OF assms nw jok, of ] sf by (simp add: prod_eq_iff)
        have e2: "calls ?w' = calls w @ ?cs" using sf by simp
        have e3: "failed_asserts ?w' = failed_asserts w @ ?f35" by simp
        have e4: "90 \<notin> set ?f35" "181 \<notin> set ?f35" by simp_all
        have e5: "aStat (pager ?w') PAGER_STAT_SPILL = aStat (pager w) PAGER_STAT_SPILL + 1"
          by simp
        have e6: "?r = SQLITE_OK \<longrightarrow> Call_sqlite3PcacheMakeClean a \<in> set ?cs
                       \<and> PGHDR_DIRTY \<notin> pg_flags ?w' a \<and> PGHDR_NEED_SYNC \<notin> pg_flags ?w' a"
          using sf by simp
        have e7: "?r \<noteq> SQLITE_OK \<longrightarrow> Call_sqlite3PcacheMakeClean a \<notin> set ?cs
                       \<and> (PGHDR_DIRTY \<in> flags pg \<longrightarrow> PGHDR_DIRTY \<in> pg_flags ?w' a)"
          using fl sf by simp
        have e8: "errCode (pager ?w') = (if io_or_full ?r then ?r else SQLITE_OK)"
          using assms(2) by simp
        have e9: "io_or_full ?r \<longrightarrow> eState (pager ?w') = PAGER_ERROR" by simp
        have e10: "os_writes ?cs = []" by simp
        have e11: "\<forall>b. b \<noteq> a \<longrightarrow> pg_flags ?w' b =
            (if Call_syncJournal \<in> set ?cs \<and> rc_syncJournal e = SQLITE_OK
             then pg_flags w b - {PGHDR_NEED_SYNC} else pg_flags w b)" using sf by simp
        have e12: "\<forall>x. dbfile ?w' x = dbfile w x" by simp
        show ?thesis
          by (rule that [OF e1 e2 e3 e4 e5 e6 e7 e8 e9]) (use nw e10 e11 e12 in simp_all)
      next
        case nsf: False
        then have sok: "sync_required (pager w) pg \<longrightarrow> rc_syncJournal e = SQLITE_OK" by blast
        let ?sy = "if sync_required (pager w) pg then [Call_syncJournal] else []"
        show ?thesis
        proof (rule pagerStress_write_path [OF assms nw jok sok])
        fix r5 w5 cs5 fs5
        assume W: "pagerStress e w a = Some (stress_finish w5 a r5)"
             "calls w5 = calls w @ ?jc @ ?sy @ cs5"
             "\<forall>c \<in> set cs5. c = Call_pagerOpentemp \<or> (\<exists>z. c = Call_sqlite3OsFileControlHint z)
                    \<or> write_or_backup c"
             "os_writes cs5 = []
              \<or> (\<exists>buf. os_writes cs5 = [(buf, pageSize (pager w), page_offset w a)])"
             "\<forall>buf k off. (buf, k, off) \<in> set (os_writes cs5)
                   \<longrightarrow> rc_OsWrite e off \<noteq> SQLITE_OK \<longrightarrow> r5 = rc_OsWrite e off"
             "failed_asserts w5 = failed_asserts w @ fs5" "90 \<notin> set fs5" "181 \<notin> set fs5"
             "\<forall>b. pg_flags w5 b = (if sync_required (pager w) pg
                                    then pg_flags w b - {PGHDR_NEED_SYNC} else pg_flags w b)"
             "\<forall>x. \<not> (sint (page_offset w a) \<le> x
                      \<and> x < sint (page_offset w a) + sint (pageSize (pager w)))
                  \<longrightarrow> dbfile w5 x = dbfile w x"
             "aStat (pager w5) PAGER_STAT_SPILL = aStat (pager w) PAGER_STAT_SPILL + 1"
             "errCode (pager w5) = SQLITE_OK"
             "eState (pager w5) = (if sync_required (pager w) pg then PAGER_WRITER_DBMOD
                          else eState (pager w))"
        let ?w' = "snd (stress_finish w5 a r5)"
        let ?mc = "if r5 = SQLITE_OK then [Call_sqlite3PcacheMakeClean a] else []"
        let ?cs = "?jc @ ?sy @ cs5 @ ?mc"
        have nmc: "Call_sqlite3PcacheMakeClean a \<notin> set cs5"
          and nsy: "Call_syncJournal \<notin> set cs5"
          using W(3) by auto
        have e1: "pagerStress e w a = Some (r5, ?w')" using W(1) by (simp add: prod_eq_iff)
        have e2: "calls ?w' = calls w @ ?cs" using W(2) by simp
        have e3: "failed_asserts ?w' = failed_asserts w @ fs5" using W(6) by simp
        have e5: "aStat (pager ?w') PAGER_STAT_SPILL = aStat (pager w) PAGER_STAT_SPILL + 1"
          using W(11) by simp
        have e6: "r5 = SQLITE_OK \<longrightarrow> Call_sqlite3PcacheMakeClean a \<in> set ?cs
                       \<and> PGHDR_DIRTY \<notin> pg_flags ?w' a \<and> PGHDR_NEED_SYNC \<notin> pg_flags ?w' a"
          by simp
        have e7: "r5 \<noteq> SQLITE_OK \<longrightarrow> Call_sqlite3PcacheMakeClean a \<notin> set ?cs
                       \<and> (PGHDR_DIRTY \<in> flags pg \<longrightarrow> PGHDR_DIRTY \<in> pg_flags ?w' a)"
          using fl nmc W(9) by simp
        have e8: "errCode (pager ?w') = (if io_or_full r5 then r5 else SQLITE_OK)"
          using W(12) by simp
        have e9: "io_or_full r5 \<longrightarrow> eState (pager ?w') = PAGER_ERROR" by simp
        have ow: "os_writes ?cs = os_writes cs5" by simp
        have e10: "\<forall>buf k off. (buf, k, off) \<in> set (os_writes ?cs)
                   \<longrightarrow> rc_OsWrite e off \<noteq> SQLITE_OK \<longrightarrow> r5 = rc_OsWrite e off"
          unfolding ow by (rule W(5))
        have e11: "os_writes ?cs = []
              \<or> (\<exists>buf. os_writes ?cs = [(buf, pageSize (pager w), page_offset w a)])"
          unfolding ow by (rule W(4))
        have e12: "os_writes ?cs \<noteq> [] \<longrightarrow> \<not> pWal (pager w)
            \<and> (sync_required (pager w) pg
                 \<longrightarrow> rc_syncJournal e = SQLITE_OK
                     \<and> (\<exists>cs1 cs2. ?cs = cs1 @ Call_syncJournal # cs2 \<and> os_writes cs1 = []))"
        proof (intro impI conjI)
          show "\<not> pWal (pager w)" by (rule nw)
          assume sr: "sync_required (pager w) pg"
          then show "rc_syncJournal e = SQLITE_OK" using sok by simp
          have "?cs = ?jc @ Call_syncJournal # (cs5 @ ?mc)" using sr by simp
          moreover have "os_writes ?jc = []" by simp
          ultimately show "\<exists>cs1 cs2. ?cs = cs1 @ Call_syncJournal # cs2 \<and> os_writes cs1 = []"
            by blast
        qed
        have sin: "(Call_syncJournal \<in> set ?cs \<and> rc_syncJournal e = SQLITE_OK)
                    = sync_required (pager w) pg"
          using nsy sok by auto
        have e13: "\<forall>b. b \<noteq> a \<longrightarrow> pg_flags ?w' b =
            (if Call_syncJournal \<in> set ?cs \<and> rc_syncJournal e = SQLITE_OK
             then pg_flags w b - {PGHDR_NEED_SYNC} else pg_flags w b)"
          unfolding sin using W(9) by simp
        have e14: "\<forall>x. \<not> (sint (page_offset w a) \<le> x
                      \<and> x < sint (page_offset w a) + sint (pageSize (pager w)))
                  \<longrightarrow> dbfile ?w' x = dbfile w x"
          using W(10) by simp
        have e15: "pWal (pager w) \<longrightarrow>
           r5 = (if rc_subjournal e = SQLITE_OK then rc_WalFrames e else rc_subjournal e)"
          using nw by simp
        have e16: "\<not> pWal (pager w) \<and> (batch_atomic_write e \<and> \<not> tempFile (pager w)
             \<longrightarrow> rc_JournalCreate e = SQLITE_OK)
           \<and> sync_required (pager w) pg \<and> rc_syncJournal e \<noteq> SQLITE_OK
         \<longrightarrow> r5 = rc_syncJournal e"
          using nsf by blast
        show ?thesis
          by (rule that [OF e1 e2 e3 W(7) W(8) e5 e6 e7 e8 e9 e15 e16 e10 e11 e12 e13 e14])
        qed
      qed
    qed
  qed
qed

section \<open>The write loop against the rule on the state before the call\<close>

lemma pagelist_step_data:
  assumes "pagelist_step e w a = Some s"
  shows "b \<noteq> a \<Longrightarrow> pg_data (step_world s) b = pg_data w b"
    and "\<not> is_page1 w a \<Longrightarrow> pg_data (step_world s) b = pg_data w b"
    and "\<not> is_page1 w a \<Longrightarrow> dbFileVers (pager (step_world s)) = dbFileVers (pager w)"
  using assms
  by (auto simp: pagelist_step_def Let_def split_beta is_page1_def pg_data_def
        pager_set_pagehash_def pager_write_changecounter_def
        split: option.splits if_splits)

lemma is_page1_cong:
  assumes "links (pages w') = links (pages w)"
  shows "is_page1 w' a = is_page1 w a"
proof -
  have "links (pages w') a = links (pages w) a" using assms by simp
  then show ?thesis
    by (cases "pages w a"; cases "pages w' a") (simp_all add: links_def is_page1_def)
qed

lemma write_buffer_cong:
  assumes "links (pages w') = links (pages w)" and "pg_data w' b = pg_data w b"
    and "is_page1 w b \<longrightarrow> dbFileVers (pager w') = dbFileVers (pager w)"
  shows "write_buffer e w' b = write_buffer e w b"
proof (cases "pages w b")
  case None
  then have "pages w' b = None" using links_NoneD [OF assms(1)] by simp
  with None show ?thesis by (simp add: write_buffer_def)
next
  case (Some pg)
  then obtain pg' where pg': "pages w' b = Some pg'" "pgno pg' = pgno pg"
    using links_SomeD [OF assms(1) Some] by blast
  have d: "pData pg' = pData pg" using assms(2) Some pg'(1) by (simp add: pg_data_def)
  show ?thesis
  proof (cases "pgno pg = 1")
    case True
    then have "dbFileVers (pager w') = dbFileVers (pager w)"
      using assms(3) Some by (simp add: is_page1_def)
    then show ?thesis using Some pg' d True
      by (simp add: write_buffer_def pg_data_def pager_write_changecounter_def)
  next
    case False
    then show ?thesis using Some pg' d
      by (simp add: write_buffer_def pg_data_def)
  qed
qed

lemma write_sequence_cong:
  assumes "\<forall>b \<in> set as. passes_write_test w' b = passes_write_test w b
                      \<and> page_offset w' b = page_offset w b
                      \<and> write_buffer e w' b = write_buffer e w b"
    and "pageSize (pager w') = pageSize (pager w)"
  shows "write_sequence e w' as = write_sequence e w as"
  using assms by (induction as) (simp_all split: option.split)

lemma pagelist_run_sequence:
  assumes "pagelist_run e SQLITE_OK w as = Some (r', w')"
    and "length (filter (is_page1 w) as) \<le> 1"
  shows "\<exists>cs. calls w' = calls w @ cs \<and> list_all write_or_backup cs
           \<and> os_writes cs = fst (write_sequence e w as)
           \<and> r' = snd (write_sequence e w as)"
  using assms
proof (induction as arbitrary: w)
  case Nil
  then have "Some (SQLITE_OK, w) = Some (r', w')" by simp
  then have "SQLITE_OK = r' \<and> w = w'" by (rule Some_pair_eqD)
  then have "calls w' = calls w @ []" "r' = SQLITE_OK" by simp_all
  then show ?case by (intro exI [of _ "[]"]) simp
next
  case (Cons a as)
  from Cons.prems(1) show ?case
  proof (cases rule: pagelist_run_ConsE)
    case stop
    then show ?thesis by simp
  next
    case (ret s)
    from pagelist_step_calls' [OF ret(2)] obtain cs where
      cs: "calls (step_world s) = calls w @ cs" "list_all write_or_backup cs"
        "os_writes cs = (if passes_write_test w a
                  then (case write_buffer e w a of
                          None \<Rightarrow> []
                        | Some d \<Rightarrow> [(d, pageSize (pager w), page_offset w a)])
                  else [])" by blast
    have nb: "passes_write_test w a \<and> write_buffer e w a = None"
      using pagelist_step_rc(2) [OF ret(2)] ret(3) by blast
    then have o: "os_writes cs = []" using cs(3) by simp
    have r: "r' = SQLITE_NOMEM"
      unfolding ret(4) using pagelist_step_rc(1) [OF ret(2)] nb by simp
    have ws: "write_sequence e w (a # as) = ([], SQLITE_NOMEM)" using nb by simp
    show ?thesis using cs(1,2) o r unfolding ret(5) ws
      by (intro exI [of _ cs]) simp
  next
    case (cont s)
    let ?ws = "step_world s"
    from pagelist_step_calls' [OF cont(2)] obtain cs where
      cs: "calls ?ws = calls w @ cs" "list_all write_or_backup cs"
        "os_writes cs = (if passes_write_test w a
                  then (case write_buffer e w a of
                          None \<Rightarrow> []
                        | Some d \<Rightarrow> [(d, pageSize (pager w), page_offset w a)])
                  else [])" by blast
    have nr: "\<not> (passes_write_test w a \<and> write_buffer e w a = None)"
      using pagelist_step_rc(2) [OF cont(2)] cont(3) by auto
    note rc = pagelist_step_rc(1) [OF cont(2)]
    show ?thesis
    proof (cases "step_rc s = SQLITE_OK")
      case False
      from pagelist_run_stopped [OF cont(4) False]
      have st: "r' = step_rc s" "calls w' = calls ?ws" by simp_all
      from False rc have p: "passes_write_test w a"
        by (cases "passes_write_test w a") simp_all
      with nr obtain d where d: "write_buffer e w a = Some d"
        by (cases "write_buffer e w a") auto
      have f: "rc_OsWrite e (page_offset w a) \<noteq> SQLITE_OK" "step_rc s = rc_OsWrite e (page_offset w a)"
        using False rc p d by simp_all
      have ws: "write_sequence e w (a # as)
                = ([(d, pageSize (pager w), page_offset w a)], rc_OsWrite e (page_offset w a))"
        using p d f(1) by simp
      have o: "os_writes cs = [(d, pageSize (pager w), page_offset w a)]"
        using cs(3) p d by simp
      have c: "calls w' = calls w @ cs" using st(2) cs(1) by simp
      show ?thesis using c cs(2) o st(1) f(2) unfolding ws
        by (intro exI [of _ cs]) simp
    next
      case True
      have lk: "links (pages ?ws) = links (pages w)" by (rule pagelist_step_links [OF cont(2)])
      have pg: "dbSize (pager ?ws) = dbSize (pager w)" "pageSize (pager ?ws) = pageSize (pager w)"
        using pagelist_step_pager [OF cont(2)] by simp_all
      have p1: "is_page1 ?ws = is_page1 w" by (rule ext) (rule is_page1_cong [OF lk])
      have len: "length (filter (is_page1 w) as)
                 + (if is_page1 w a then 1 else 0) \<le> 1"
        using Cons.prems(2) by (cases "is_page1 w a") simp_all
      have len': "length (filter (is_page1 ?ws) as) \<le> 1" unfolding p1 using len by simp
      have run: "pagelist_run e SQLITE_OK ?ws as = Some (r', w')"
        using cont(4) True by simp
      have same: "\<forall>b \<in> set as. passes_write_test ?ws b = passes_write_test w b
                      \<and> page_offset ?ws b = page_offset w b
                      \<and> write_buffer e ?ws b = write_buffer e w b"
      proof
        fix b assume b: "b \<in> set as"
        have wb: "write_buffer e ?ws b = write_buffer e w b"
        proof (cases "is_page1 w a")
          case nf: False
          show ?thesis
            by (rule write_buffer_cong [OF lk pagelist_step_data(2) [OF cont(2) nf]])
               (simp add: pagelist_step_data(3) [OF cont(2) nf])
        next
          case t: True
          then have "filter (is_page1 w) as = []" using len by simp
          then have nb: "\<not> is_page1 w b" using b by (simp add: filter_empty_conv)
          then have "b \<noteq> a" using t by blast
          from pagelist_step_data(1) [OF cont(2) this] show ?thesis
            by (rule write_buffer_cong [OF lk]) (simp add: nb)
        qed
        show "passes_write_test ?ws b = passes_write_test w b
                      \<and> page_offset ?ws b = page_offset w b
                      \<and> write_buffer e ?ws b = write_buffer e w b"
          using passes_write_test_cong [OF lk pg(1)] page_offset_cong [OF lk pg(2)] wb
          by simp
      qed
      have wse: "write_sequence e ?ws as = write_sequence e w as"
        by (rule write_sequence_cong [OF same pg(2)])
      from Cons.IH [OF run len'] obtain cs' where
        t: "calls w' = calls ?ws @ cs'" "list_all write_or_backup cs'"
           "os_writes cs' = fst (write_sequence e w as)"
           "r' = snd (write_sequence e w as)"
        unfolding wse by blast
      have c1: "calls w' = calls w @ (cs @ cs')" using t(1) cs(1) by simp
      have c2: "list_all write_or_backup (cs @ cs')" using t(2) cs(2) by simp
      have c3: "os_writes (cs @ cs') = fst (write_sequence e w (a # as))
                \<and> r' = snd (write_sequence e w (a # as))"
      proof (cases "passes_write_test w a")
        case False
        then show ?thesis using cs(3) t(3,4) by simp
      next
        case p: True
        with nr obtain d where d: "write_buffer e w a = Some d"
        by (cases "write_buffer e w a") auto
        have ok: "rc_OsWrite e (page_offset w a) = SQLITE_OK" using True rc p d by simp
        show ?thesis using cs(3) t(3,4) p d ok by simp
      qed
      show ?thesis using c1 c2 c3 by blast
    qed
  qed
qed

lemma pager_write_pagelist_sequence:
  assumes "dirty_chain (pages w) pList as"
    and "pager_write_pagelist e w pList = Some (r', w')"
    and "length (filter (is_page1 w) as) \<le> 1"
  shows "\<exists>cs. calls w' = calls w @ cs
           \<and> (if fdOpen (pager w) \<or> rc_Opentemp e = SQLITE_OK
               then os_writes cs = fst (write_sequence e w as)
                    \<and> r' = snd (write_sequence e w as)
               else os_writes cs = [] \<and> r' = rc_Opentemp e)"
proof -
  from assms(1,2) obtain r0 w0 where pre: "pagelist_prelude e w pList = Some (r0, w0)"
    and run: "pagelist_run e r0 w0 as = Some (r', w')" by (rule pager_write_pagelist_run)
  from pagelist_prelude_calls [OF pre] obtain cs0 where
    p: "calls w0 = calls w @ cs0" "os_writes cs0 = []" by blast
  note S = pagelist_prelude_state [OF pre]
  show ?thesis
  proof (cases "r0 = SQLITE_OK")
    case False
    from pagelist_run_stopped [OF run False] have st: "r' = r0" "calls w' = calls w0" by simp_all
    have c: "\<not> (fdOpen (pager w) \<or> rc_Opentemp e = SQLITE_OK)" "r0 = rc_Opentemp e"
      using False S(9) by (simp_all split: if_splits)
    have "calls w' = calls w @ cs0" using st(2) p(1) by simp
    then show ?thesis using c p(2) st(1) by (intro exI [of _ cs0]) simp
  next
    case True
    then have c: "fdOpen (pager w) \<or> rc_Opentemp e = SQLITE_OK"
      using S(9) by (simp split: if_splits)
    have lk: "links (pages w0) = links (pages w)" using S(1) by simp
    have p1: "is_page1 w0 = is_page1 w" by (rule ext) (rule is_page1_cong [OF lk])
    have dd: "\<And>b. pg_data w0 b = pg_data w b" using S(1) by (simp add: pg_data_def)
    have same: "\<forall>b \<in> set as. passes_write_test w0 b = passes_write_test w b
                      \<and> page_offset w0 b = page_offset w b
                      \<and> write_buffer e w0 b = write_buffer e w b"
      using prelude_tests(1,2) [OF pre] write_buffer_cong [OF lk dd] S(8) by simp
    have wse: "write_sequence e w0 as = write_sequence e w as"
      by (rule write_sequence_cong [OF same S(4)])
    have run': "pagelist_run e SQLITE_OK w0 as = Some (r', w')" using run True by simp
    have len: "length (filter (is_page1 w0) as) \<le> 1" unfolding p1 by (rule assms(3))
    from pagelist_run_sequence [OF run' len] obtain cs where
      q: "calls w' = calls w0 @ cs" "os_writes cs = fst (write_sequence e w as)"
         "r' = snd (write_sequence e w as)"
      unfolding wse by blast
    have "calls w' = calls w @ (cs0 @ cs)" using q(1) p(1) by simp
    moreover have "os_writes (cs0 @ cs) = fst (write_sequence e w as)" using p(2) q(2) by simp
    ultimately show ?thesis using c q(3) by (intro exI [of _ "cs0 @ cs"]) simp
  qed
qed

lemma passes_page_offset:
  assumes "passes_write_test w b"
  shows "sint (page_offset w b) = uint (page_number w b - 1) * sint (pageSize (pager w))"
proof -
  from assms obtain pg where pg: "pages w b = Some pg"
    by (cases "pages w b") (simp_all add: passes_write_test_def)
  then show ?thesis using page_offset_value [OF pg] by (simp add: page_number_def)
qed

section \<open>What a successful spill has done\<close>

lemma stress_write_state_passes:
  assumes "pages w a = Some pg"
    and "sync_required (pager w) pg \<longrightarrow> rc_syncJournal e = SQLITE_OK"
  shows "passes_write_test (stress_write_state e w a pg) a = passes_write_test w a"
proof -
  let ?W = "stress_write_state e w a pg"
  from stress_write_state_page [OF assms(1)] obtain pg' where
    pg': "pages ?W a = Some pg'" "pgno pg' = pgno pg" by blast
  have "pg_flags ?W a = (if sync_required (pager w) pg then pg_flags w a - {PGHDR_NEED_SYNC}
              else pg_flags w a)"
    by (rule stress_write_state_facts(3) [OF assms])
  then have fl: "(PGHDR_DONT_WRITE \<in> flags pg') = (PGHDR_DONT_WRITE \<in> flags pg)"
    using pg'(1) assms(1) by (simp add: pg_flags_def split: if_splits)
  show ?thesis
    using pg' fl assms(1) stress_write_state_facts(9) [OF assms]
    by (simp add: passes_write_test_def)
qed

lemma pagerStress_success_written:
  assumes "pages w a = Some pg" and "errCode (pager w) = SQLITE_OK"
    and "\<not> spill_refused (pager w) pg"
    and "pagerStress e w a = Some (SQLITE_OK, w')" and "calls w' = calls w @ cs"
  shows "pWal (pager w) \<longrightarrow> Call_pagerWalFrames a \<in> set cs"
    and "\<not> pWal (pager w) \<and> passes_write_test w a
         \<longrightarrow> (\<exists>buf. os_writes cs = [(buf, pageSize (pager w), page_offset w a)])"
proof -
  show "pWal (pager w) \<longrightarrow> Call_pagerWalFrames a \<in> set cs"
  proof
    assume wal: "pWal (pager w)"
    let ?w2 = "stress_begin (assert_at 35 (PGHDR_DIRTY \<in> flags pg) w) a"
    let ?w4 = "if rc_subjournal e = SQLITE_OK
                   then log_call (Call_pagerWalFrames a) (log_call (Call_subjournalPageIfRequired a) ?w2)
                   else log_call (Call_subjournalPageIfRequired a) ?w2"
    let ?r = "if rc_subjournal e = SQLITE_OK then rc_WalFrames e else rc_subjournal e"
    have "Some (stress_finish ?w4 a ?r) = Some (SQLITE_OK, w')"
      using pagerStress_wal [OF assms(1-3) wal, of e] assms(4) by simp
    then have eq: "stress_finish ?w4 a ?r = (SQLITE_OK, w')" by (simp only: option.inject)
    have "fst (stress_finish ?w4 a ?r) = SQLITE_OK" unfolding eq by simp
    then have r: "?r = SQLITE_OK" by simp
    then have s: "rc_subjournal e = SQLITE_OK" by (simp split: if_splits)
    have "snd (stress_finish ?w4 a ?r) = w'" unfolding eq by simp
    then have "calls w' = calls (snd (stress_finish ?w4 a ?r))" by simp
    also have "\<dots> = calls w @ [Call_subjournalPageIfRequired a, Call_pagerWalFrames a,
                                 Call_sqlite3PcacheMakeClean a]"
      using r s by simp
    finally have "cs = [Call_subjournalPageIfRequired a, Call_pagerWalFrames a,
                                 Call_sqlite3PcacheMakeClean a]"
      using assms(5) by simp
    then show "Call_pagerWalFrames a \<in> set cs" by simp
  qed
  show "\<not> pWal (pager w) \<and> passes_write_test w a
         \<longrightarrow> (\<exists>buf. os_writes cs = [(buf, pageSize (pager w), page_offset w a)])"
  proof
    assume h: "\<not> pWal (pager w) \<and> passes_write_test w a"
    then have nw: "\<not> pWal (pager w)" and pt: "passes_write_test w a" by simp_all
    let ?w2 = "stress_begin (assert_at 35 (PGHDR_DIRTY \<in> flags pg) w) a"
    have jok: "batch_atomic_write e \<and> \<not> tempFile (pager w) \<longrightarrow> rc_JournalCreate e = SQLITE_OK"
    proof (intro impI)
      assume b: "batch_atomic_write e \<and> \<not> tempFile (pager w)"
      show "rc_JournalCreate e = SQLITE_OK"
      proof (rule ccontr)
        assume f: "rc_JournalCreate e \<noteq> SQLITE_OK"
        have "Some (pager_error (log_call Call_sqlite3JournalCreate ?w2) (rc_JournalCreate e))
              = Some (SQLITE_OK, w')"
          using pagerStress_journal_create_fails [OF assms(1-3) nw b f] assms(4) by simp
        then have eq: "pager_error (log_call Call_sqlite3JournalCreate ?w2) (rc_JournalCreate e)
              = (SQLITE_OK, w')" by (simp only: option.inject)
        have "fst (pager_error (log_call Call_sqlite3JournalCreate ?w2) (rc_JournalCreate e))
              = SQLITE_OK" unfolding eq by simp
        with f show False by simp
      qed
    qed
    have sok: "sync_required (pager w) pg \<longrightarrow> rc_syncJournal e = SQLITE_OK"
    proof (intro impI)
      assume sr: "sync_required (pager w) pg"
      show "rc_syncJournal e = SQLITE_OK"
      proof (rule ccontr)
        assume f: "rc_syncJournal e \<noteq> SQLITE_OK"
        let ?w3 = "snd (syncJournal e
                     (if batch_atomic_write e \<and> \<not> tempFile (pager w)
                      then log_call Call_sqlite3JournalCreate ?w2 else ?w2))"
        have "Some (stress_finish ?w3 a (rc_syncJournal e)) = Some (SQLITE_OK, w')"
          using pagerStress_sync_fails [OF assms(1-3) nw jok sr f] assms(4) by simp
        then have eq: "stress_finish ?w3 a (rc_syncJournal e) = (SQLITE_OK, w')"
          by (simp only: option.inject)
        have "fst (stress_finish ?w3 a (rc_syncJournal e)) = SQLITE_OK" unfolding eq by simp
        with f show False by simp
      qed
    qed
    let ?W = "stress_write_state e w a pg"
    note F = stress_write_state_facts [OF assms(1) sok]
    have ch: "dirty_chain (pages ?W) (Some a) [a]" by (rule stress_write_state_chain [OF assms(1)])
    from pager_write_pagelist_Some [OF ch] obtain r5 w5 where
      res: "pager_write_pagelist e ?W (Some a) = Some (r5, w5)" by blast
    have "Some (stress_finish w5 a r5) = Some (SQLITE_OK, w')"
      using pagerStress_writes [OF assms(1-3) nw jok sok] res assms(4) by simp
    then have eq: "stress_finish w5 a r5 = (SQLITE_OK, w')" by (simp only: option.inject)
    have "fst (stress_finish w5 a r5) = SQLITE_OK" unfolding eq by simp
    then have r5: "r5 = SQLITE_OK" by simp
    have "snd (stress_finish w5 a r5) = w'" unfolding eq by simp
    then have cw: "calls w' = calls w5 @ [Call_sqlite3PcacheMakeClean a]"
      using r5 by (metis append_Nil2 stress_finish_proj(3) append.right_neutral)
    from pager_write_pagelist_calls [OF ch res] obtain cs5 n where
      c5: "calls w5 = calls ?W @ cs5"
        "map (\<lambda>(b, k, off). (k, off)) (os_writes cs5) =
               map (\<lambda>a. (pageSize (pager ?W), page_offset ?W a))
                   (filter (passes_write_test ?W) (take n [a]))"
        "r5 = SQLITE_OK \<longrightarrow> n = length [a]"
      by blast
    have n: "n = 1" using c5(3) r5 by simp
    have po: "page_offset ?W a = page_offset w a"
      by (rule stress_write_state_offset [OF assms(1) sok])
    have pp: "passes_write_test ?W a" using stress_write_state_passes [OF assms(1) sok] pt by simp
    have m: "map (\<lambda>(b, k, off). (k, off)) (os_writes cs5) = [(pageSize (pager w), page_offset w a)]"
      using c5(2) n pp po F(8) by simp
    then obtain x where x: "os_writes cs5 = [x]" by (cases "os_writes cs5") auto
    obtain buf k off where xx: "x = (buf, k, off)" by (cases x)
    have o5: "os_writes cs5 = [(buf, pageSize (pager w), page_offset w a)]"
      using m x xx by simp
    have "calls w' = calls w @ ((if batch_atomic_write e \<and> \<not> tempFile (pager w)
                        then [Call_sqlite3JournalCreate] else [])
                     @ (if sync_required (pager w) pg then [Call_syncJournal] else [])
                     @ cs5 @ [Call_sqlite3PcacheMakeClean a])"
      using cw c5(1) F(1) by simp
    then have "cs = (if batch_atomic_write e \<and> \<not> tempFile (pager w)
                        then [Call_sqlite3JournalCreate] else [])
                     @ (if sync_required (pager w) pg then [Call_syncJournal] else [])
                     @ cs5 @ [Call_sqlite3PcacheMakeClean a]"
      using assms(5) by simp
    then have "os_writes cs = os_writes cs5" by simp
    with o5 show "\<exists>buf. os_writes cs = [(buf, pageSize (pager w), page_offset w a)]" by simp
  qed
qed

section \<open>The change counter on disk\<close>

lemma Get4byte_put32bits: "sqlite3Get4byte (put32bits v @ rest) = v"
  unfolding put32bits_def
  apply simp
  apply (rule bit_word_eqI)
  apply (auto simp: bit_simps)
  subgoal for n by (cases "16 \<le> n") simp_all
  subgoal for n by (cases "16 \<le> n") simp_all
  done

lemma Get4byte_take4:
  "4 \<le> length v \<Longrightarrow> sqlite3Get4byte (take 4 v) = sqlite3Get4byte v"
  by (cases v rule: sqlite3Get4byte.cases) simp_all

lemma put32bits_succ_differs:
  assumes "4 \<le> length v"
  shows "put32bits (sqlite3Get4byte v + 1) \<noteq> take 4 v"
proof
  assume "put32bits (sqlite3Get4byte v + 1) = take 4 v"
  then have "sqlite3Get4byte (put32bits (sqlite3Get4byte v + 1) @ []) = sqlite3Get4byte (take 4 v)"
    by simp
  then have "sqlite3Get4byte v + 1 = sqlite3Get4byte v"
    unfolding Get4byte_put32bits Get4byte_take4 [OF assms] .
  then show False by simp
qed

lemma step_writes_counter:
  assumes "pagelist_step e w a = Some s" and "step_rc s = SQLITE_OK"
    and "is_page1 w a" and "passes_write_test w a" and "xCodec e = None"
    and "28 \<le> sint (pageSize (pager w))" and "28 \<le> length (pg_data w a)"
  shows "map (dbfile (step_world s)) [24, 25, 26, 27]
         = map Some (put32bits (sqlite3Get4byte (dbFileVers (pager w)) + 1))"
proof -
  from assms(3) obtain pg where pg: "pages w a = Some pg" "pgno pg = 1"
    by (cases "pages w a") (simp_all add: is_page1_def)
  let ?c = "put32bits (sqlite3Get4byte (dbFileVers (pager w)) + 1)"
  let ?d = "take 24 (pData pg) @ ?c @ drop 28 (pData pg)"
  have len: "28 \<le> length (pData pg)" using assms(7) pg(1) by (simp add: pg_data_def)
  have wb: "write_buffer e w a = Some ?d"
    using pg assms(5)
    by (simp add: write_buffer_def CODEC2_def pg_data_def pager_write_changecounter_def)
  have ok: "rc_OsWrite e (page_offset w a) = SQLITE_OK"
    using pagelist_step_rc(1) [OF assms(1)] assms(2,4) wb by simp
  have off: "sint (page_offset w a) = 0" using page_offset_value [OF pg(1)] pg(2) by simp
  have db: "dbfile (step_world s)
            = store_bytes (dbfile w) 0 (take (nat (sint (pageSize (pager w)))) ?d)"
    using pagelist_step_dbfile [OF assms(1)] assms(4) wb ok off by simp
  have lc: "length ?c = 4" by (simp add: put32bits_def)
  have ld: "28 \<le> length ?d" using len lc by simp
  have n28: "28 \<le> nat (sint (pageSize (pager w)))" using assms(6) by simp
  have lt0: "length (take (nat (sint (pageSize (pager w)))) ?d)
             = min (length ?d) (nat (sint (pageSize (pager w))))" by (rule length_take)
  have lt: "28 \<le> length (take (nat (sint (pageSize (pager w)))) ?d)"
    unfolding lt0 by (rule min.boundedI [OF ld n28])
  have nth: "\<And>i. i < 4 \<Longrightarrow> take (nat (sint (pageSize (pager w)))) ?d ! (24 + i) = ?c ! i"
  proof -
    fix i :: nat assume i: "i < 4"
    have "24 + i < nat (sint (pageSize (pager w)))" using assms(6) i by simp
    then have "take (nat (sint (pageSize (pager w)))) ?d ! (24 + i) = ?d ! (24 + i)"
      by (rule nth_take)
    also have "\<dots> = (?c @ drop 28 (pData pg)) ! i"
      using len by (simp add: nth_append)
    also have "\<dots> = ?c ! i" using i lc by (simp add: nth_append)
    finally show "take (nat (sint (pageSize (pager w)))) ?d ! (24 + i) = ?c ! i" .
  qed
  have sb: "\<And>i. i < 4 \<Longrightarrow> dbfile (step_world s) (24 + int i) = Some (?c ! i)"
  proof -
    fix i :: nat assume i: "i < 4"
    have "24 + int i < int (length (take (nat (sint (pageSize (pager w)))) ?d))"
      using lt i by linarith
    then have "dbfile (step_world s) (24 + int i)
               = Some (take (nat (sint (pageSize (pager w)))) ?d ! nat (24 + int i))"
      unfolding db store_bytes_def by simp
    moreover have "nat (24 + int i) = 24 + i" by simp
    ultimately show "dbfile (step_world s) (24 + int i) = Some (?c ! i)"
      using nth [OF i] by simp
  qed
  obtain b0 b1 b2 b3 where c: "?c = [b0, b1, b2, b3]" by (simp add: put32bits_def)
  have "dbfile (step_world s) 24 = Some b0" using sb [of 0] c by simp
  moreover have "dbfile (step_world s) 25 = Some b1" using sb [of 1] c by simp
  moreover have "dbfile (step_world s) 26 = Some b2" using sb [of 2] c by simp
  moreover have "dbfile (step_world s) 27 = Some b3" using sb [of 3] c by simp
  ultimately show ?thesis unfolding c by simp
qed

lemma other_page_offset:
  assumes "passes_write_test w b" and "\<not> is_page1 w b" and "0 \<le> sint (pageSize (pager w))"
  shows "sint (pageSize (pager w)) \<le> sint (page_offset w b)"
proof -
  from assms(1) obtain pg where pg: "pages w b = Some pg"
    by (cases "pages w b") (simp_all add: passes_write_test_def)
  have "pgno pg \<noteq> 1" using assms(2) pg by (simp add: is_page1_def)
  then have "pgno pg - 1 \<noteq> 0" by simp
  then have "uint (pgno pg - 1) \<noteq> 0" by (simp only: uint_0_iff not_False_eq_True)
  moreover have "0 \<le> uint (pgno pg - 1)" by simp
  ultimately have "1 \<le> uint (pgno pg - 1)" by linarith
  then have "1 * sint (pageSize (pager w)) \<le> uint (pgno pg - 1) * sint (pageSize (pager w))"
    using assms(3) by (rule mult_right_mono)
  then show ?thesis using page_offset_value [OF pg] by simp
qed

lemma pagelist_run_counter:
  assumes "pagelist_run e SQLITE_OK w as = Some (SQLITE_OK, w')"
    and "a1 \<in> set as" and "is_page1 w a1" and "passes_write_test w a1"
    and "length (filter (is_page1 w) as) \<le> 1"
    and "xCodec e = None" and "28 \<le> sint (pageSize (pager w))" and "28 \<le> length (pg_data w a1)"
  shows "map (dbfile w') [24, 25, 26, 27]
         = map Some (put32bits (sqlite3Get4byte (dbFileVers (pager w)) + 1))"
  using assms
proof (induction as arbitrary: w)
  case Nil
  then show ?case by simp
next
  case (Cons a as)
  from Cons.prems(1) show ?case
  proof (cases rule: pagelist_run_ConsE)
    case stop
    then show ?thesis by simp
  next
    case (ret s)
    have nb: "passes_write_test w a \<and> write_buffer e w a = None"
      using pagelist_step_rc(2) [OF ret(2)] ret(3) by blast
    have "step_rc s = SQLITE_NOMEM" using pagelist_step_rc(1) [OF ret(2)] nb by simp
    with ret(4) show ?thesis by simp
  next
    case (cont s)
    let ?ws = "step_world s"
    have rc: "step_rc s = SQLITE_OK"
    proof (rule ccontr)
      assume f: "step_rc s \<noteq> SQLITE_OK"
      from pagelist_run_stopped [OF cont(4) f] have "SQLITE_OK = step_rc s" by (rule conjunct1)
      with f show False by simp
    qed
    have run: "pagelist_run e SQLITE_OK ?ws as = Some (SQLITE_OK, w')" using cont(4) rc by simp
    have lk: "links (pages ?ws) = links (pages w)" by (rule pagelist_step_links [OF cont(2)])
    have pg: "dbSize (pager ?ws) = dbSize (pager w)" "pageSize (pager ?ws) = pageSize (pager w)"
      using pagelist_step_pager [OF cont(2)] by simp_all
    have p1: "is_page1 ?ws = is_page1 w" by (rule ext) (rule is_page1_cong [OF lk])
    have pt: "passes_write_test ?ws = passes_write_test w"
      by (rule ext) (rule passes_write_test_cong [OF lk pg(1)])
    have po: "page_offset ?ws = page_offset w"
      by (rule ext) (rule page_offset_cong [OF lk pg(2)])
    have len: "length (filter (is_page1 w) as) + (if is_page1 w a then 1 else 0) \<le> 1"
      using Cons.prems(5) by (cases "is_page1 w a") simp_all
    show ?thesis
    proof (cases "is_page1 w a")
      case True
      then have none: "filter (is_page1 w) as = []" using len by simp
      have "a1 \<notin> set as"
      proof
        assume "a1 \<in> set as"
        then have "a1 \<in> set (filter (is_page1 w) as)" using Cons.prems(3) by simp
        with none show False by simp
      qed
      then have a: "a1 = a" using Cons.prems(2) by simp
      have here: "map (dbfile ?ws) [24, 25, 26, 27]
                  = map Some (put32bits (sqlite3Get4byte (dbFileVers (pager w)) + 1))"
        using step_writes_counter [OF cont(2) rc True] Cons.prems(4,6,7,8) unfolding a by simp
      have fr: "\<And>x. x < 28 \<Longrightarrow> dbfile w' x = dbfile ?ws x"
      proof -
        fix x :: int assume x: "x < 28"
        have "\<forall>b \<in> set as. passes_write_test ?ws b \<longrightarrow>
           \<not> (sint (page_offset ?ws b) \<le> x
               \<and> x < sint (page_offset ?ws b) + sint (pageSize (pager ?ws)))"
        proof (intro ballI impI)
          fix b assume b: "b \<in> set as" and p: "passes_write_test ?ws b"
          have n1: "\<not> is_page1 w b"
          proof
            assume "is_page1 w b"
            then have "b \<in> set (filter (is_page1 w) as)" using b by simp
            with none show False by simp
          qed
          have "sint (pageSize (pager w)) \<le> sint (page_offset w b)"
            using other_page_offset [of w b] p n1 Cons.prems(7) unfolding pt by simp
          then show "\<not> (sint (page_offset ?ws b) \<le> x
               \<and> x < sint (page_offset ?ws b) + sint (pageSize (pager ?ws)))"
            unfolding po using x Cons.prems(7) by simp
        qed
        from pagelist_run_dbfile_frame [OF run this] show "dbfile w' x = dbfile ?ws x" .
      qed
      have "map (dbfile w') [24, 25, 26, 27] = map (dbfile ?ws) [24, 25, 26, 27]"
        using fr [of 24] fr [of 25] fr [of 26] fr [of 27] by simp
      with here show ?thesis by simp
    next
      case False
      then have "a1 \<noteq> a" using Cons.prems(3) by blast
      then have in': "a1 \<in> set as" using Cons.prems(2) by simp
      have len': "length (filter (is_page1 ?ws) as) \<le> 1" unfolding p1 using len by simp
      have d: "pg_data ?ws a1 = pg_data w a1" by (rule pagelist_step_data(2) [OF cont(2) False])
      have v: "dbFileVers (pager ?ws) = dbFileVers (pager w)"
        by (rule pagelist_step_data(3) [OF cont(2) False])
      have "map (dbfile w') [24, 25, 26, 27]
         = map Some (put32bits (sqlite3Get4byte (dbFileVers (pager ?ws)) + 1))"
        by (rule Cons.IH [OF run in'])
           (use Cons.prems(3,4,6,7,8) len' in \<open>simp_all add: p1 pt pg d\<close>)
      then show ?thesis unfolding v .
    qed
  qed
qed

lemma pager_write_pagelist_counter:
  assumes "dirty_chain (pages w) pList as"
    and "pager_write_pagelist e w pList = Some (SQLITE_OK, w')"
    and "a1 \<in> set as" and "is_page1 w a1" and "passes_write_test w a1"
    and "length (filter (is_page1 w) as) \<le> 1"
    and "xCodec e = None" and "28 \<le> sint (pageSize (pager w))" and "28 \<le> length (pg_data w a1)"
  shows "map (dbfile w') [24, 25, 26, 27]
         = map Some (put32bits (sqlite3Get4byte (dbFileVers (pager w)) + 1))"
proof -
  from assms(1,2) obtain r0 w0 where pre: "pagelist_prelude e w pList = Some (r0, w0)"
    and run: "pagelist_run e r0 w0 as = Some (SQLITE_OK, w')" by (rule pager_write_pagelist_run)
  note S = pagelist_prelude_state [OF pre]
  have r0: "r0 = SQLITE_OK"
  proof (rule ccontr)
    assume f: "r0 \<noteq> SQLITE_OK"
    from pagelist_run_stopped [OF run f] have "SQLITE_OK = r0" by (rule conjunct1)
    with f show False by simp
  qed
  have run': "pagelist_run e SQLITE_OK w0 as = Some (SQLITE_OK, w')" using run r0 by simp
  have lk: "links (pages w0) = links (pages w)" using S(1) by simp
  have p1: "is_page1 w0 = is_page1 w" by (rule ext) (rule is_page1_cong [OF lk])
  have d: "pg_data w0 a1 = pg_data w a1" using S(1) by (simp add: pg_data_def)
  have "map (dbfile w') [24, 25, 26, 27]
         = map Some (put32bits (sqlite3Get4byte (dbFileVers (pager w0)) + 1))"
    by (rule pagelist_run_counter [OF run' assms(3)])
       (use assms(4-9) in \<open>simp_all add: p1 prelude_tests(1) [OF pre] S(4) d\<close>)
  then show ?thesis unfolding S(8) .
qed

lemma filter_remove1_le:
  "filter P (remove1 a xs) = [] \<Longrightarrow> length (filter P xs) \<le> 1"
  by (induction xs) (auto split: if_splits)

lemma dirty_chain_upd_other:
  "a \<notin> set as \<Longrightarrow> dirty_chain (h(a := v)) p as = dirty_chain h p as"
  by (induction as arbitrary: p) (auto split: option.splits)

lemma incr_changecounter_facts:
  assumes "pager_incr_changecounter w a1 pList as = (w1, l)"
    and "dirty_chain (pages w) pList as" and "pages w a1 = Some pg1"
  shows "dbfile w1 = dbfile w" and "pageSize (pager w1) = pageSize (pager w)"
    and "dbSize (pager w1) = dbSize (pager w)" and "dbFileVers (pager w1) = dbFileVers (pager w)"
    and "is_page1 w1 = is_page1 w" and "passes_write_test w1 = passes_write_test w"
    and "pg_data w1 = pg_data w"
    and "dirty_chain (pages w1) l (if changeCountDone (pager w) \<or> a1 \<in> set as then as else a1 # as)"
    and "changeCountDone (pager w) \<and> a1 \<notin> set as \<longrightarrow> w1 = w"
proof -
  show "dbfile w1 = dbfile w" "pageSize (pager w1) = pageSize (pager w)"
    "dbSize (pager w1) = dbSize (pager w)" "dbFileVers (pager w1) = dbFileVers (pager w)"
    "changeCountDone (pager w) \<and> a1 \<notin> set as \<longrightarrow> w1 = w"
    using assms(1) by (auto simp: pager_incr_changecounter_def Let_def split: if_splits)
  show "is_page1 w1 = is_page1 w"
    using assms(1,3)
    by (auto simp: pager_incr_changecounter_def Let_def is_page1_def fun_eq_iff
          split: if_splits option.splits)
  show "passes_write_test w1 = passes_write_test w"
    using assms(1,3)
    by (auto simp: pager_incr_changecounter_def Let_def passes_write_test_def fun_eq_iff
          split: if_splits option.splits)
  show "pg_data w1 = pg_data w"
    using assms(1,3)
    by (auto simp: pager_incr_changecounter_def Let_def pg_data_def fun_eq_iff
          split: if_splits option.splits)
  show "dirty_chain (pages w1) l (if changeCountDone (pager w) \<or> a1 \<in> set as then as else a1 # as)"
    using assms
    by (auto simp: pager_incr_changecounter_def Let_def dirty_chain_upd_other split: if_splits)
qed

section \<open>Results on the size round-up\<close>

lemma memsys5Init_BlockSize_8:
  "memsys5Init_BlockSize BlockSize_static 8 =
     Some [8, 16, 32, 64, 128, 256, 512, 1024, 2048, 4096, 8192, 16384, 32768, 65536, 131072,
           262144, 524288, 1048576, 2097152, 4194304, 8388608, 16777216, 33554432, 67108864,
           134217728, 268435456, 536870912, 0, 0, 0, 0, 0]"
  by code_simp

text \<open>
  A second initialisation with a larger atom keeps the sizes that the first one stored in the
  slots it no longer reaches.
\<close>

lemma memsys5Init_BlockSize_again:
  "Option.bind (memsys5Init_BlockSize BlockSize_static 8) (\<lambda>tbl. memsys5Init_BlockSize tbl 16) =
     Some [16, 32, 64, 128, 256, 512, 1024, 2048, 4096, 8192, 16384, 32768, 65536, 131072,
           262144, 524288, 1048576, 2097152, 4194304, 8388608, 16777216, 33554432, 67108864,
           134217728, 268435456, 536870912, 536870912, 0, 0, 0, 0, 0]"
  by code_simp

text \<open>
  Claim C9 (table-based round-up against the loop it replaces). With \<open>mem5.szAtom = 8\<close> the
  first initialisation stores the sizes 8, 16, ..., 0x20000000 and leaves the other five slots zero,
  because its loop stops at \<open>size < 0x40000000\<close>. For \<open>n = 0x40000000\<close> (accepted by the guard
  \<open>n > 0x40000000\<close>) the loop-based version returns 0x40000000, while the table scan finds no
  entry \<open>\<ge> n\<close> and runs past the 32nd slot. The same happens for every
  \<open>0x20000000 < n \<le> 0x40000000\<close>, for instance \<open>n = 0x20000001\<close>.
\<close>

theorem memsys5Roundup_table_differs_from_loop:
  "Option.bind (memsys5Init_BlockSize BlockSize_static 8) (\<lambda>tbl. memsys5Roundup tbl 0x40000000) = None
   \<and> memsys5Roundup_loop 8 0x40000000 = Some 0x40000000
   \<and> Option.bind (memsys5Init_BlockSize BlockSize_static 8) (\<lambda>tbl. memsys5Roundup tbl 0x20000001) = None
   \<and> memsys5Roundup_loop 8 0x20000001 = Some 0x40000000
   \<and> Option.bind (memsys5Init_BlockSize BlockSize_static 8) (\<lambda>tbl. memsys5Roundup tbl 0x20000000) = Some 0x20000000
   \<and> memsys5Roundup_loop 8 0x20000000 = Some 0x20000000"
  by code_simp

section \<open>Evaluation on concrete states\<close>

lemmas example_defs = world_example_def pager_example_def page_example_def env_ok_def
  env_write_fails_def

lemma pages_set_pagehash:
  "pages (pager_set_pagehash w a)
   = (pages w)(a := map_option (\<lambda>pg. pg\<lparr>pageHash := pager_pagehash w pg\<rparr>) (pages w a))"
  by (simp add: pager_set_pagehash_def)

lemma pages_write_changecounter:
  "pages (pager_write_changecounter w a)
   = (pages w)(a := map_option (\<lambda>pg. pg\<lparr>pData := take 24 (pData pg)
                                   @ put32bits (sqlite3Get4byte (dbFileVers (pager w)) + 1)
                                   @ drop 28 (pData pg)\<rparr>) (pages w a))"
  by (simp add: pager_write_changecounter_def)

lemmas eval_simps = pager_write_pagelist_def pagelist_prelude_def Let_def deref_def
  pagelist_loop.simps pagelist_step_def CODEC2_def split_beta pages_set_pagehash
  pages_write_changecounter pg_data_def pg_flags_def passes_write_test_def page_offset_def
  run_result_def run_write_offsets_def run_calls_def run_flags_def run_pager_def

lemma chain_example: "dirty_chain (pages world_example) (Some 10) [10, 11]"
  by (simp add: example_defs)

section \<open>Results on pager\_write\_pagelist\<close>

text \<open>
  Claim C5 (database-file writes are page-sized and page-aligned). For a well-formed, non-empty
  dirty list \<^verbatim>\<open>pager_write_pagelist\<close> returns, and the \<^verbatim>\<open>sqlite3OsWrite\<close> calls it issues are, in
  list order, one for each entry that passes the write test among the first \<open>n\<close> entries of
  the list (all entries when the result is \<^verbatim>\<open>SQLITE_OK\<close>): the write for an entry has length
  \<open>pageSize\<close> and offset \<open>(pgno - 1) * pageSize\<close> with \<open>pgno\<close> the page number of that very
  entry, the subtraction being that of the 32-bit page number and the product that of 64-bit
  integers, which does not overflow. So every write has length \<open>pageSize\<close> and an offset that
  is a multiple of \<open>pageSize\<close>. When no entry has page number 0 (page numbers are 1-based),
  the offsets are the integers \<open>(pgno - 1) * pageSize\<close>.
\<close>

theorem pager_write_pagelist_writes_page_aligned:
  assumes "dirty_chain (pages w) pList (a # as)"
  shows "\<exists>r' w' cs n. pager_write_pagelist e w pList = Some (r', w') \<and> calls w' = calls w @ cs
           \<and> n \<le> length (a # as) \<and> (r' = SQLITE_OK \<longrightarrow> n = length (a # as))
           \<and> map (\<lambda>(buf, amt, off). (amt, sint off)) (os_writes cs) =
               map (\<lambda>b. (pageSize (pager w),
                          uint (page_number w b - 1) * sint (pageSize (pager w))))
                   (filter (passes_write_test w) (take n (a # as)))
           \<and> (\<forall>(buf, amt, off) \<in> set (os_writes cs).
                 amt = pageSize (pager w) \<and> sint (pageSize (pager w)) dvd sint off)
           \<and> ((\<forall>b \<in> set (a # as). page_number w b \<noteq> 0) \<longrightarrow>
                map (\<lambda>(buf, amt, off). (amt, sint off)) (os_writes cs) =
                  map (\<lambda>b. (pageSize (pager w),
                             (uint (page_number w b) - 1) * sint (pageSize (pager w))))
                      (filter (passes_write_test w) (take n (a # as))))"
proof -
  let ?ps = "pageSize (pager w)"
  from pager_write_pagelist_Some [OF assms] obtain r' w' where
    res: "pager_write_pagelist e w pList = Some (r', w')" by blast
  from pager_write_pagelist_calls [OF assms res] obtain cs n where
    cs: "calls w' = calls w @ cs" "n \<le> length (a # as)"
      "map (\<lambda>(b, k, off). (k, off)) (os_writes cs) =
         map (\<lambda>a. (?ps, page_offset w a))
             (filter (passes_write_test w) (take n (a # as)))"
      "r' = SQLITE_OK \<longrightarrow> n = length (a # as)"
    by blast
  let ?L = "filter (passes_write_test w) (take n (a # as))"
  have "map (\<lambda>(k, off). (k, sint off)) (map (\<lambda>(b, k, off). (k, off)) (os_writes cs)) =
        map (\<lambda>(k, off). (k, sint off)) (map (\<lambda>a. (?ps, page_offset w a)) ?L)"
    by (simp only: cs(3))
  then have m0: "map (\<lambda>(buf, amt, off). (amt, sint off)) (os_writes cs) =
        map (\<lambda>b. (?ps, sint (page_offset w b))) ?L"
    by (simp add: comp_def case_prod_unfold)
  have m1: "map (\<lambda>b. (?ps, sint (page_offset w b))) ?L =
            map (\<lambda>b. (?ps, uint (page_number w b - 1) * sint ?ps)) ?L"
    by (rule map_cong [OF refl]) (simp add: passes_page_offset)
  have c1: "map (\<lambda>(buf, amt, off). (amt, sint off)) (os_writes cs) =
            map (\<lambda>b. (?ps, uint (page_number w b - 1) * sint ?ps)) ?L"
    using m0 m1 by (rule trans)
  have c2: "\<forall>(buf, amt, off) \<in> set (os_writes cs). amt = ?ps \<and> sint ?ps dvd sint off"
  proof (clarify)
    fix buf amt off
    assume "(buf, amt, off) \<in> set (os_writes cs)"
    then have "(amt, sint off) \<in> set (map (\<lambda>(buf, amt, off). (amt, sint off)) (os_writes cs))"
      by force
    then have "(amt, sint off) \<in> set (map (\<lambda>b. (?ps, uint (page_number w b - 1) * sint ?ps)) ?L)"
      by (simp only: c1)
    then obtain b where "amt = ?ps" "sint off = uint (page_number w b - 1) * sint ?ps"
      by auto
    then show "amt = ?ps \<and> sint ?ps dvd sint off" by simp
  qed
  have c3: "(\<forall>b \<in> set (a # as). page_number w b \<noteq> 0) \<longrightarrow>
                map (\<lambda>(buf, amt, off). (amt, sint off)) (os_writes cs) =
                  map (\<lambda>b. (?ps, (uint (page_number w b) - 1) * sint ?ps)) ?L"
  proof
    assume nz: "\<forall>b \<in> set (a # as). page_number w b \<noteq> 0"
    have "map (\<lambda>b. (?ps, uint (page_number w b - 1) * sint ?ps)) ?L =
          map (\<lambda>b. (?ps, (uint (page_number w b) - 1) * sint ?ps)) ?L"
    proof (rule map_cong [OF refl])
      fix b assume "b \<in> set ?L"
      then have "b \<in> set (take n (a # as))" by simp
      then have "b \<in> set (a # as)" by (rule in_set_takeD)
      then have "page_number w b \<noteq> 0" using nz by blast
      then show "(?ps, uint (page_number w b - 1) * sint ?ps)
                 = (?ps, (uint (page_number w b) - 1) * sint ?ps)"
        by (simp add: uint_pgno_minus_1)
    qed
    with c1 show "map (\<lambda>(buf, amt, off). (amt, sint off)) (os_writes cs) =
                  map (\<lambda>b. (?ps, (uint (page_number w b) - 1) * sint ?ps)) ?L"
      by (rule trans)
  qed
  from res cs(1,2,4) c1 c2 c3 show ?thesis by blast
qed

theorem pager_write_pagelist_writes_page_aligned_witness:
  "dirty_chain (pages world_example) (Some 10) (10 # [11])
   \<and> (\<exists>r' w' cs n. pager_write_pagelist env_ok world_example (Some 10) = Some (r', w')
           \<and> calls w' = calls world_example @ cs
           \<and> n \<le> length (10 # [11 :: addr]) \<and> (r' = SQLITE_OK \<longrightarrow> n = length (10 # [11 :: addr]))
           \<and> map (\<lambda>(buf, amt, off). (amt, sint off)) (os_writes cs) =
               map (\<lambda>b. (pageSize (pager world_example),
                          uint (page_number world_example b - 1)
                            * sint (pageSize (pager world_example))))
                   (filter (passes_write_test world_example) (take n (10 # [11])))
           \<and> (\<forall>(buf, amt, off) \<in> set (os_writes cs).
                 amt = pageSize (pager world_example)
                 \<and> sint (pageSize (pager world_example)) dvd sint off)
           \<and> ((\<forall>b \<in> set (10 # [11]). page_number world_example b \<noteq> 0) \<longrightarrow>
                map (\<lambda>(buf, amt, off). (amt, sint off)) (os_writes cs) =
                  map (\<lambda>b. (pageSize (pager world_example),
                             (uint (page_number world_example b) - 1)
                               * sint (pageSize (pager world_example))))
                      (filter (passes_write_test world_example) (take n (10 # [11])))))"
proof -
  have h: "dirty_chain (pages world_example) (Some 10) (10 # [11])"
    by (simp add: example_defs)
  from h pager_write_pagelist_writes_page_aligned [OF h, of env_ok] show ?thesis
    by (rule conjI)
qed

lemma pager_write_pagelist_example_writes:
  "run_result (pager_write_pagelist env_ok world_example (Some 10)) = Some SQLITE_OK
   \<and> run_write_offsets (pager_write_pagelist env_ok world_example (Some 10)) = [512, 1024]
   \<and> map (page_number world_example) [10, 11] = [2, 3]
   \<and> pageSize (pager world_example) = 512"
  by (simp add: eval_simps example_defs page_number_def)

text \<open>
  Claim C3, as stated (every page of the list is written if and only if it passes both
  tests), fails when a write fails: the loop condition \<^verbatim>\<open>rc==SQLITE_OK && pList\<close> ends the loop
  at the first failed write. With the write of page 2 failing, page 3 (address 11) is in the
  list, has \<open>pgno \<le> dbSize\<close> and \<^verbatim>\<open>PGHDR_DONT_WRITE\<close> clear, and no write is issued at its offset
  1024.
\<close>

theorem pager_write_pagelist_stops_at_failed_write:
  "dirty_chain (pages world_example) (Some 10) [10, 11]
   \<and> run_result (pager_write_pagelist env_write_fails world_example (Some 10))
       = Some (SQLITE_IOERR IOERR_WRITE)
   \<and> run_write_offsets (pager_write_pagelist env_write_fails world_example (Some 10)) = [512]
   \<and> passes_write_test world_example 11
   \<and> sint (page_offset world_example 11) = 1024"
  by (simp add: eval_simps example_defs)

text \<open>
  Claim C3, amended. For a well-formed, non-empty dirty list that holds at most one entry for
  page 1 (the cache holds at most one entry per page number), the routine returns, and the
  database-file writes it issues (buffer, length and offset of each, in order) and its result
  code are those of \<open>write_sequence\<close> on the list and the state before the call. That is: the
  entries are visited in list order; a visited entry that fails a test (\<open>pgno \<le> dbSize\<close>,
  \<^verbatim>\<open>PGHDR_DONT_WRITE\<close> clear) gets no write and the loop goes on to the next entry; a visited
  entry that passes both is written, \<open>pageSize\<close> bytes of its content (for page 1 after the
  change counter is advanced, and put through the codec if there is one) at its own offset,
  unless the codec fails on it: then the routine returns \<^verbatim>\<open>SQLITE_NOMEM\<close> at once, without a
  write for that entry; a failed write ends the loop and its code is the result; no entry
  after the first failure is visited. When the file is not open and opening the temp file
  fails, no entry is visited and the result is the code of the open. When the result is
  \<^verbatim>\<open>SQLITE_OK\<close> every entry was visited and the writes are exactly those of the entries that
  pass both tests. (With two entries for page 1 the buffer of the second would depend on the
  write of the first, through \<^verbatim>\<open>dbFileVers\<close>.)
\<close>

theorem pager_write_pagelist_write_sequence:
  assumes "dirty_chain (pages w) pList (a # as)"
    and "length (filter (is_page1 w) (a # as)) \<le> 1"
  shows "\<exists>r' w' cs. pager_write_pagelist e w pList = Some (r', w') \<and> calls w' = calls w @ cs
           \<and> (if fdOpen (pager w) \<or> rc_Opentemp e = SQLITE_OK
               then os_writes cs = fst (write_sequence e w (a # as))
                    \<and> r' = snd (write_sequence e w (a # as))
               else os_writes cs = [] \<and> r' = rc_Opentemp e)
           \<and> (r' = SQLITE_OK \<longrightarrow>
                 map (\<lambda>(buf, amt, off). off) (os_writes cs) =
                   map (page_offset w) (filter (passes_write_test w) (a # as)))"
proof -
  from pager_write_pagelist_Some [OF assms(1)] obtain r' w' where
    res: "pager_write_pagelist e w pList = Some (r', w')" by blast
  from pager_write_pagelist_sequence [OF assms(1) res assms(2)] obtain cs where
    cs: "calls w' = calls w @ cs"
      "if fdOpen (pager w) \<or> rc_Opentemp e = SQLITE_OK
               then os_writes cs = fst (write_sequence e w (a # as))
                    \<and> r' = snd (write_sequence e w (a # as))
               else os_writes cs = [] \<and> r' = rc_Opentemp e"
    by blast
  from pager_write_pagelist_calls [OF assms(1) res] obtain cs2 n where
    cs2: "calls w' = calls w @ cs2"
      "map (\<lambda>(b, k, off). (k, off)) (os_writes cs2) =
         map (\<lambda>a. (pageSize (pager w), page_offset w a))
             (filter (passes_write_test w) (take n (a # as)))"
      "r' = SQLITE_OK \<longrightarrow> n = length (a # as)"
    by blast
  have eq: "cs2 = cs" using cs(1) cs2(1) by simp
  have "map snd (map (\<lambda>(b, k, off). (k, off)) (os_writes cs)) =
        map snd (map (\<lambda>a. (pageSize (pager w), page_offset w a))
             (filter (passes_write_test w) (take n (a # as))))"
    using cs2(2) unfolding eq by (simp only:)
  then have m: "map (\<lambda>(buf, amt, off). off) (os_writes cs) =
               map (page_offset w) (filter (passes_write_test w) (take n (a # as)))"
    by (simp add: comp_def case_prod_unfold)
  have ok: "r' = SQLITE_OK \<longrightarrow>
                 map (\<lambda>(buf, amt, off). off) (os_writes cs) =
                   map (page_offset w) (filter (passes_write_test w) (a # as))"
  proof
    assume "r' = SQLITE_OK"
    then have "n = length (a # as)" using cs2(3) by simp
    then have "take n (a # as) = a # as" by simp
    with m show "map (\<lambda>(buf, amt, off). off) (os_writes cs) =
                   map (page_offset w) (filter (passes_write_test w) (a # as))"
      by (simp only:)
  qed
  from res cs ok show ?thesis by blast
qed

theorem pager_write_pagelist_write_sequence_witness:
  "dirty_chain (pages world_example) (Some 10) (10 # [11])
   \<and> length (filter (is_page1 world_example) (10 # [11])) \<le> 1
   \<and> (\<exists>r' w' cs. pager_write_pagelist env_write_fails world_example (Some 10) = Some (r', w')
           \<and> calls w' = calls world_example @ cs
           \<and> (if fdOpen (pager world_example) \<or> rc_Opentemp env_write_fails = SQLITE_OK
               then os_writes cs = fst (write_sequence env_write_fails world_example (10 # [11]))
                    \<and> r' = snd (write_sequence env_write_fails world_example (10 # [11]))
               else os_writes cs = [] \<and> r' = rc_Opentemp env_write_fails)
           \<and> (r' = SQLITE_OK \<longrightarrow>
                 map (\<lambda>(buf, amt, off). off) (os_writes cs) =
                   map (page_offset world_example)
                       (filter (passes_write_test world_example) (10 # [11]))))"
proof -
  have h1: "dirty_chain (pages world_example) (Some 10) (10 # [11])"
    by (simp add: example_defs)
  have h2: "length (filter (is_page1 world_example) (10 # [11])) \<le> 1"
    by (simp add: example_defs is_page1_def)
  show ?thesis
    by (rule conjI [OF h1 conjI [OF h2
          pager_write_pagelist_write_sequence [OF h1 h2, of env_write_fails]]])
qed

lemma write_sequence_example:
  "write_sequence env_write_fails world_example [10, 11]
   = ([(replicate 512 0, 512, 512)], SQLITE_IOERR IOERR_WRITE)
   \<and> write_sequence env_ok world_example [10, 11]
   = ([(replicate 512 0, 512, 512), (replicate 512 0, 512, 1024)], SQLITE_OK)"
  by (simp add: example_defs passes_write_test_def write_buffer_def page_offset_def
        CODEC2_def pg_data_def)
section \<open>Results on pagerStress\<close>

lemmas stress_eval_simps = pagerStress_def NEVER_def stress_begin_def stress_finish_def
  pager_error_def sqlite3PcacheMakeClean_def syncJournal_def
  world_need_sync_def SPILLFLAG_OFF_def SPILLFLAG_ROLLBACK_def SPILLFLAG_NOSYNC_def
  PAGER_STAT_SPILL_def PAGER_STAT_WRITE_def insert_Diff_if

lemma spill_bits:
  fixes d :: u8
  shows "(d AND (SPILLFLAG_ROLLBACK OR SPILLFLAG_OFF) \<noteq> 0)
         = (d AND SPILLFLAG_OFF \<noteq> 0 \<or> d AND SPILLFLAG_ROLLBACK \<noteq> 0)"
proof -
  have "d AND (SPILLFLAG_ROLLBACK OR SPILLFLAG_OFF)
        = (d AND SPILLFLAG_ROLLBACK) OR (d AND SPILLFLAG_OFF)"
    by (rule bit.conj_disj_distrib)
  then show ?thesis by (auto simp: or_eq_0_iff)
qed

lemma not_refused_when_clear:
  assumes "doNotSpill p = 0 \<or> (doNotSpill p = SPILLFLAG_NOSYNC \<and> PGHDR_NEED_SYNC \<notin> flags pg)"
  shows "\<not> spill_refused p pg"
  using assms
  by (auto simp: spill_refused_def SPILLFLAG_NOSYNC_def SPILLFLAG_ROLLBACK_def SPILLFLAG_OFF_def)



text \<open>
  Claim C4 (a spill ends clean or in an error). For every call that attempts a spill (the
  pager is not in the error state and the call is not refused) the call returns, and: with
  result \<^verbatim>\<open>SQLITE_OK\<close>, \<^verbatim>\<open>sqlite3PcacheMakeClean\<close> has been called on the victim, whose DIRTY flag is
  clear, and no error is latched; with any other result \<^verbatim>\<open>sqlite3PcacheMakeClean\<close> has not been
  called, a dirty victim is still dirty, and \<^verbatim>\<open>pager_error\<close> has put the pager in the ERROR
  state with the code latched exactly when the code is \<^verbatim>\<open>SQLITE_FULL\<close> or an \<^verbatim>\<open>SQLITE_IOERR\<close>
  code. The code returned is that of the failing step: of the WAL frame append (or the
  sub-journal write before it), of the journal sync, or of the database write.
\<close>

theorem pagerStress_clean_or_error:
  assumes "pages w a = Some pg" and "errCode (pager w) = SQLITE_OK"
    and "\<not> spill_refused (pager w) pg"
  shows "\<exists>r w' cs. pagerStress e w a = Some (r, w') \<and> calls w' = calls w @ cs
           \<and> (r = SQLITE_OK \<longrightarrow> Call_sqlite3PcacheMakeClean a \<in> set cs
                  \<and> PGHDR_DIRTY \<notin> pg_flags w' a \<and> errCode (pager w') = SQLITE_OK)
           \<and> (r \<noteq> SQLITE_OK \<longrightarrow> Call_sqlite3PcacheMakeClean a \<notin> set cs
                  \<and> (PGHDR_DIRTY \<in> flags pg \<longrightarrow> PGHDR_DIRTY \<in> pg_flags w' a)
                  \<and> (if r = SQLITE_FULL \<or> (\<exists>k. r = SQLITE_IOERR k)
                      then eState (pager w') = PAGER_ERROR \<and> errCode (pager w') = r
                      else errCode (pager w') = SQLITE_OK))
           \<and> (pWal (pager w) \<longrightarrow>
                 r = (if rc_subjournal e = SQLITE_OK then rc_WalFrames e else rc_subjournal e))
           \<and> (\<not> pWal (pager w)
                \<and> (batch_atomic_write e \<and> \<not> tempFile (pager w)
                     \<longrightarrow> rc_JournalCreate e = SQLITE_OK)
                \<and> sync_required (pager w) pg \<and> rc_syncJournal e \<noteq> SQLITE_OK
               \<longrightarrow> r = rc_syncJournal e)
           \<and> (\<forall>buf k off. (buf, k, off) \<in> set (os_writes cs) \<longrightarrow> rc_OsWrite e off \<noteq> SQLITE_OK
                 \<longrightarrow> r = rc_OsWrite e off)"
proof (rule pagerStress_spillE [OF assms, of e])
  fix r w' cs and fs :: "nat list"
  assume A: "pagerStress e w a = Some (r, w')" "calls w' = calls w @ cs"
    "r = SQLITE_OK \<longrightarrow> Call_sqlite3PcacheMakeClean a \<in> set cs
                       \<and> PGHDR_DIRTY \<notin> pg_flags w' a \<and> PGHDR_NEED_SYNC \<notin> pg_flags w' a"
    "r \<noteq> SQLITE_OK \<longrightarrow> Call_sqlite3PcacheMakeClean a \<notin> set cs
                       \<and> (PGHDR_DIRTY \<in> flags pg \<longrightarrow> PGHDR_DIRTY \<in> pg_flags w' a)"
    "errCode (pager w') = (if io_or_full r then r else SQLITE_OK)"
    "io_or_full r \<longrightarrow> eState (pager w') = PAGER_ERROR"
    "pWal (pager w) \<longrightarrow>
       r = (if rc_subjournal e = SQLITE_OK then rc_WalFrames e else rc_subjournal e)"
    "\<not> pWal (pager w) \<and> (batch_atomic_write e \<and> \<not> tempFile (pager w)
         \<longrightarrow> rc_JournalCreate e = SQLITE_OK)
       \<and> sync_required (pager w) pg \<and> rc_syncJournal e \<noteq> SQLITE_OK
     \<longrightarrow> r = rc_syncJournal e"
    "\<forall>buf k off. (buf, k, off) \<in> set (os_writes cs) \<longrightarrow> rc_OsWrite e off \<noteq> SQLITE_OK
                   \<longrightarrow> r = rc_OsWrite e off"
  have ok: "r = SQLITE_OK \<longrightarrow> errCode (pager w') = SQLITE_OK"
    using A(5) by auto
  have er: "if r = SQLITE_FULL \<or> (\<exists>k. r = SQLITE_IOERR k)
            then eState (pager w') = PAGER_ERROR \<and> errCode (pager w') = r
            else errCode (pager w') = SQLITE_OK"
    using A(5,6) by (simp add: io_or_full_iff)
  show ?thesis
    using A(1,2,3,4,7,8,9) ok er by blast
qed

theorem pagerStress_clean_or_error_witness:
  "pages world_example 10 = Some (page_example 2 (Some 11) {PGHDR_DIRTY})
   \<and> errCode (pager world_example) = SQLITE_OK
   \<and> \<not> spill_refused (pager world_example) (page_example 2 (Some 11) {PGHDR_DIRTY})
   \<and> (\<exists>r w' cs. pagerStress env_write_fails world_example 10 = Some (r, w')
         \<and> calls w' = calls world_example @ cs
         \<and> (r = SQLITE_OK \<longrightarrow> Call_sqlite3PcacheMakeClean 10 \<in> set cs
                  \<and> PGHDR_DIRTY \<notin> pg_flags w' 10 \<and> errCode (pager w') = SQLITE_OK)
         \<and> (r \<noteq> SQLITE_OK \<longrightarrow> Call_sqlite3PcacheMakeClean 10 \<notin> set cs
                  \<and> (PGHDR_DIRTY \<in> flags (page_example 2 (Some 11) {PGHDR_DIRTY})
                       \<longrightarrow> PGHDR_DIRTY \<in> pg_flags w' 10)
                  \<and> (if r = SQLITE_FULL \<or> (\<exists>k. r = SQLITE_IOERR k)
                      then eState (pager w') = PAGER_ERROR \<and> errCode (pager w') = r
                      else errCode (pager w') = SQLITE_OK))
         \<and> (pWal (pager world_example) \<longrightarrow>
               r = (if rc_subjournal env_write_fails = SQLITE_OK
                    then rc_WalFrames env_write_fails else rc_subjournal env_write_fails))
         \<and> (\<not> pWal (pager world_example)
              \<and> (batch_atomic_write env_write_fails \<and> \<not> tempFile (pager world_example)
                   \<longrightarrow> rc_JournalCreate env_write_fails = SQLITE_OK)
              \<and> sync_required (pager world_example) (page_example 2 (Some 11) {PGHDR_DIRTY})
              \<and> rc_syncJournal env_write_fails \<noteq> SQLITE_OK
             \<longrightarrow> r = rc_syncJournal env_write_fails)
         \<and> (\<forall>buf k off. (buf, k, off) \<in> set (os_writes cs)
               \<longrightarrow> rc_OsWrite env_write_fails off \<noteq> SQLITE_OK
               \<longrightarrow> r = rc_OsWrite env_write_fails off))"
proof -
  let ?pg = "page_example 2 (Some 11) {PGHDR_DIRTY}"
  have p: "pages world_example 10 = Some ?pg" by (simp add: example_defs)
  have ok: "errCode (pager world_example) = SQLITE_OK" by (simp add: example_defs)
  have nr: "\<not> spill_refused (pager world_example) ?pg"
    by (simp add: example_defs spill_refused_def)
  from p ok nr pagerStress_clean_or_error [OF p ok nr, of env_write_fails] show ?thesis
    by (intro conjI)
qed

lemma pagerStress_example_write_fails:
  "run_result (pagerStress env_write_fails world_example 10) = Some (SQLITE_IOERR IOERR_WRITE)
   \<and> run_write_offsets (pagerStress env_write_fails world_example 10) = [512]
   \<and> run_flags (pagerStress env_write_fails world_example 10) 10 = {PGHDR_DIRTY}
   \<and> map_option eState (run_pager (pagerStress env_write_fails world_example 10))
       = Some PAGER_ERROR
   \<and> map_option errCode (run_pager (pagerStress env_write_fails world_example 10))
       = Some (SQLITE_IOERR IOERR_WRITE)"
  by (simp add: eval_simps stress_eval_simps example_defs)

lemma pagerStress_example_success:
  "run_result (pagerStress env_ok world_need_sync 10) = Some SQLITE_OK
   \<and> run_write_offsets (pagerStress env_ok world_need_sync 10) = [512]
   \<and> run_flags (pagerStress env_ok world_need_sync 10) 10 = {}
   \<and> map_option eState (run_pager (pagerStress env_ok world_need_sync 10))
       = Some PAGER_WRITER_DBMOD"
  by (simp add: eval_simps stress_eval_simps example_defs)

text \<open>
  Claim C1 (a page with NEED\_SYNC is not written to the database file by a spill). Every
  call of \<^verbatim>\<open>pagerStress\<close> on a cache entry returns, and neither the assertion of line 90 nor
  that of line 181 (\<^verbatim>\<open>(flags&PGHDR_NEED_SYNC)==0\<close> for the page about to be written) fails in
  it. If the call wrote to the database file and the page had NEED\_SYNC on entry, then
  \<^verbatim>\<open>syncJournal\<close> was called before the write and succeeded.
\<close>

theorem pagerStress_need_sync_never_written:
  assumes "pages w a = Some pg"
  shows "\<exists>r w' cs fs. pagerStress e w a = Some (r, w') \<and> calls w' = calls w @ cs
           \<and> failed_asserts w' = failed_asserts w @ fs \<and> 90 \<notin> set fs \<and> 181 \<notin> set fs
           \<and> (os_writes cs \<noteq> [] \<and> PGHDR_NEED_SYNC \<in> flags pg
                \<longrightarrow> rc_syncJournal e = SQLITE_OK
                    \<and> (\<exists>cs1 cs2. cs = cs1 @ Call_syncJournal # cs2 \<and> os_writes cs1 = []))"
proof (cases "errCode (pager w) \<noteq> SQLITE_OK \<or> spill_refused (pager w) pg")
  case True
  let ?w' = "assert_at 35 (PGHDR_DIRTY \<in> flags pg) w"
  let ?fs = "if PGHDR_DIRTY \<in> flags pg then [] else [35::nat]"
  have "pagerStress e w a = Some (SQLITE_OK, ?w')" by (rule pagerStress_refused [OF assms True])
  moreover have "calls ?w' = calls w @ []" by simp
  moreover have "failed_asserts ?w' = failed_asserts w @ ?fs" by simp
  moreover have "90 \<notin> set ?fs" "181 \<notin> set ?fs" by simp_all
  moreover have "os_writes ([] :: call list) = []" by simp
  ultimately show ?thesis by blast
next
  case False
  then have ok: "errCode (pager w) = SQLITE_OK" and nr: "\<not> spill_refused (pager w) pg"
    by simp_all
  show ?thesis
  proof (rule pagerStress_spillE [OF assms ok nr, of e])
    fix r w' cs and fs :: "nat list"
    assume A: "pagerStress e w a = Some (r, w')" "calls w' = calls w @ cs"
      "failed_asserts w' = failed_asserts w @ fs" "90 \<notin> set fs" "181 \<notin> set fs"
      "os_writes cs \<noteq> [] \<longrightarrow> \<not> pWal (pager w)
        \<and> (sync_required (pager w) pg
             \<longrightarrow> rc_syncJournal e = SQLITE_OK
                 \<and> (\<exists>cs1 cs2. cs = cs1 @ Call_syncJournal # cs2 \<and> os_writes cs1 = []))"
    have "os_writes cs \<noteq> [] \<and> PGHDR_NEED_SYNC \<in> flags pg
                \<longrightarrow> rc_syncJournal e = SQLITE_OK
                    \<and> (\<exists>cs1 cs2. cs = cs1 @ Call_syncJournal # cs2 \<and> os_writes cs1 = [])"
      using A(6) by (simp add: sync_required_def)
    with A(1-5) show ?thesis by blast
  qed
qed

theorem pagerStress_need_sync_never_written_witness:
  "pages world_need_sync 10 = Some (page_example 2 (Some 11) {PGHDR_DIRTY, PGHDR_NEED_SYNC})
   \<and> (\<exists>r w' cs fs. pagerStress env_ok world_need_sync 10 = Some (r, w')
         \<and> calls w' = calls world_need_sync @ cs
         \<and> failed_asserts w' = failed_asserts world_need_sync @ fs
         \<and> 90 \<notin> set fs \<and> 181 \<notin> set fs
         \<and> (os_writes cs \<noteq> []
              \<and> PGHDR_NEED_SYNC \<in> flags (page_example 2 (Some 11) {PGHDR_DIRTY, PGHDR_NEED_SYNC})
              \<longrightarrow> rc_syncJournal env_ok = SQLITE_OK
                  \<and> (\<exists>cs1 cs2. cs = cs1 @ Call_syncJournal # cs2 \<and> os_writes cs1 = [])))"
proof -
  have p: "pages world_need_sync 10
           = Some (page_example 2 (Some 11) {PGHDR_DIRTY, PGHDR_NEED_SYNC})"
    by (simp add: example_defs world_need_sync_def)
  from p pagerStress_need_sync_never_written [OF p, of env_ok] show ?thesis
    by (intro conjI)
qed

text \<open>
  Claim C10, as stated, fails in its last part (the flags of every other cached page are
  unchanged): when the spill has to sync the journal, the sync clears NEED\_SYNC on every
  cache entry, not only on the victim. Below, the victim is the entry at address 10; the
  call succeeds, writes one page, and the entry at address 11 loses its NEED\_SYNC flag.
\<close>

theorem pagerStress_sync_clears_other_pages:
  "run_result (pagerStress env_ok world_need_sync 10) = Some SQLITE_OK
   \<and> run_write_offsets (pagerStress env_ok world_need_sync 10) = [512]
   \<and> pg_flags world_need_sync 11 = {PGHDR_DIRTY, PGHDR_NEED_SYNC}
   \<and> run_flags (pagerStress env_ok world_need_sync 10) 11 = {PGHDR_DIRTY}"
  by (simp add: eval_simps stress_eval_simps example_defs)

text \<open>
  Claim C10, amended. A call of \<^verbatim>\<open>pagerStress\<close> on the victim at address \<open>a\<close> returns and issues
  at most one database-file write, of \<open>pageSize\<close> bytes at the victim's offset
  \<open>(pgno - 1) * pageSize\<close>; every byte of the database file outside that page is unchanged;
  and the flags of every other cache entry are unchanged, except that NEED\_SYNC is cleared
  on them when the call synced the journal successfully.
\<close>

theorem pagerStress_writes_only_the_victim:
  assumes "pages w a = Some pg"
  shows "\<exists>r w' cs. pagerStress e w a = Some (r, w') \<and> calls w' = calls w @ cs
           \<and> (os_writes cs = []
                \<or> (\<exists>buf. os_writes cs = [(buf, pageSize (pager w), page_offset w a)]))
           \<and> sint (page_offset w a) = uint (pgno pg - 1) * sint (pageSize (pager w))
           \<and> (\<forall>x. \<not> (sint (page_offset w a) \<le> x
                        \<and> x < sint (page_offset w a) + sint (pageSize (pager w)))
                  \<longrightarrow> dbfile w' x = dbfile w x)
           \<and> (\<forall>b. b \<noteq> a \<longrightarrow> pg_flags w' b =
                  (if Call_syncJournal \<in> set cs \<and> rc_syncJournal e = SQLITE_OK
                   then pg_flags w b - {PGHDR_NEED_SYNC} else pg_flags w b))"
proof (cases "errCode (pager w) \<noteq> SQLITE_OK \<or> spill_refused (pager w) pg")
  case True
  let ?w' = "assert_at 35 (PGHDR_DIRTY \<in> flags pg) w"
  have "pagerStress e w a = Some (SQLITE_OK, ?w')" by (rule pagerStress_refused [OF assms True])
  moreover have "calls ?w' = calls w @ []" by simp
  moreover have "os_writes ([] :: call list) = []" by simp
  moreover have "\<forall>x. dbfile ?w' x = dbfile w x" by simp
  moreover have "\<forall>b. b \<noteq> a \<longrightarrow> pg_flags ?w' b =
                  (if Call_syncJournal \<in> set [] \<and> rc_syncJournal e = SQLITE_OK
                   then pg_flags w b - {PGHDR_NEED_SYNC} else pg_flags w b)" by simp
  moreover note page_offset_value [OF assms]
  ultimately show ?thesis by blast
next
  case False
  then have ok: "errCode (pager w) = SQLITE_OK" and nr: "\<not> spill_refused (pager w) pg"
    by simp_all
  show ?thesis
  proof (rule pagerStress_spillE [OF assms ok nr, of e])
    fix r w' cs and fs :: "nat list"
    assume A: "pagerStress e w a = Some (r, w')" "calls w' = calls w @ cs"
      "os_writes cs = [] \<or> (\<exists>buf. os_writes cs = [(buf, pageSize (pager w), page_offset w a)])"
      "\<forall>b. b \<noteq> a \<longrightarrow> pg_flags w' b =
            (if Call_syncJournal \<in> set cs \<and> rc_syncJournal e = SQLITE_OK
             then pg_flags w b - {PGHDR_NEED_SYNC} else pg_flags w b)"
      "\<forall>x. \<not> (sint (page_offset w a) \<le> x
                \<and> x < sint (page_offset w a) + sint (pageSize (pager w)))
          \<longrightarrow> dbfile w' x = dbfile w x"
    note page_offset_value [OF assms]
    with A show ?thesis by blast
  qed
qed

theorem pagerStress_writes_only_the_victim_witness:
  "pages world_need_sync 10 = Some (page_example 2 (Some 11) {PGHDR_DIRTY, PGHDR_NEED_SYNC})
   \<and> (\<exists>r w' cs. pagerStress env_ok world_need_sync 10 = Some (r, w')
         \<and> calls w' = calls world_need_sync @ cs
         \<and> (os_writes cs = []
              \<or> (\<exists>buf. os_writes cs = [(buf, pageSize (pager world_need_sync),
                                         page_offset world_need_sync 10)]))
         \<and> sint (page_offset world_need_sync 10)
             = uint (pgno (page_example 2 (Some 11) {PGHDR_DIRTY, PGHDR_NEED_SYNC}) - 1)
               * sint (pageSize (pager world_need_sync))
         \<and> (\<forall>x. \<not> (sint (page_offset world_need_sync 10) \<le> x
                      \<and> x < sint (page_offset world_need_sync 10)
                             + sint (pageSize (pager world_need_sync)))
                \<longrightarrow> dbfile w' x = dbfile world_need_sync x)
         \<and> (\<forall>b. b \<noteq> 10 \<longrightarrow> pg_flags w' b =
                (if Call_syncJournal \<in> set cs \<and> rc_syncJournal env_ok = SQLITE_OK
                 then pg_flags world_need_sync b - {PGHDR_NEED_SYNC}
                 else pg_flags world_need_sync b)))"
proof -
  have p: "pages world_need_sync 10
           = Some (page_example 2 (Some 11) {PGHDR_DIRTY, PGHDR_NEED_SYNC})"
    by (simp add: example_defs world_need_sync_def)
  from p pagerStress_writes_only_the_victim [OF p, of env_ok] show ?thesis
    by (intro conjI)
qed

section \<open>Results on the database size in state READER\<close>

lemma pagerPagecount_uint:
  assumes "0 < sint ps" and "0 \<le> n" and "n < 2 ^ 32 * sint ps"
  shows "uint (pagerPagecount ps n) = (if 0 < n \<and> n < sint ps then 1 else n div sint ps)"
proof -
  have lo: "0 \<le> n div sint ps" using assms(1,2) by (simp add: pos_imp_zdiv_nonneg_iff)
  have dm: "n div sint ps * sint ps \<le> n"
  proof -
    have "n = n div sint ps * sint ps + n mod sint ps" by simp
    moreover have "0 \<le> n mod sint ps" using assms(1) by simp
    ultimately show ?thesis by linarith
  qed
  have hi: "n div sint ps < 2 ^ 32"
  proof (rule ccontr)
    assume "\<not> n div sint ps < 2 ^ 32"
    then have "2 ^ 32 \<le> n div sint ps" by simp
    then have "2 ^ 32 * sint ps \<le> n div sint ps * sint ps"
      using assms(1) by (intro mult_right_mono) simp_all
    with dm assms(3) show False by linarith
  qed
  have u: "uint (word_of_int (n div sint ps) :: Pgno) = n div sint ps"
    using lo hi by (simp add: uint_word_of_int take_bit_int_eq_self)
  have "(0 < n div sint ps) = (sint ps \<le> n)" by (rule pos_imp_zdiv_pos_iff [OF assms(1)])
  with lo have z: "(n div sint ps = 0) = (n < sint ps)" by linarith
  show ?thesis unfolding pagerPagecount_def using u z by simp
qed

text \<open>
  The two examples of the documentation of \<^verbatim>\<open>dbSize\<close>, and the empty file.
\<close>

lemma dbSize_examples:
  "dbSize (enter_reader pager_open_2k \<lparr>fileSize = 5120, header28 = 2\<rparr>) = 2
   \<and> dbSize (enter_reader pager_open_2k file_1k) = 1
   \<and> dbSize (enter_reader pager_open_2k \<lparr>fileSize = 0, header28 = 0\<rparr>) = 0"
  by (simp add: enter_reader_def pager_open_2k_def file_1k_def pagerPagecount_def)



section \<open>Results on the change counter at commit\<close>

lemmas commit_eval_simps = commit_phase_one_def pager_incr_changecounter_def run_dbfile_def
  world_commit_def page1_example_def store_bytes_def put32bits_def

text \<open>
  Claim C8, as stated (every committed transaction that modifies content changes bytes 24-27
  of page 1 on disk), fails in exclusive-locking mode: once the counter has been updated under
  the lock, \<^verbatim>\<open>changeCountDone\<close> is set and "the work of updating the change-counter is omitted". The
  transaction below modifies page 2 only; it commits with \<^verbatim>\<open>SQLITE_OK\<close>, its only write is that
  of page 2 at offset 512, and bytes 24-27 on disk are 0, 0, 0, 5 before and after.
\<close>

theorem commit_exclusive_keeps_change_counter:
  "exclusiveMode (pager (world_commit True)) \<and> changeCountDone (pager (world_commit True))
   \<and> dirty_chain (pages (world_commit True)) (Some 10) [10]
   \<and> run_result (commit_phase_one env_ok (world_commit True) 9 (Some 10) [10]) = Some SQLITE_OK
   \<and> run_write_offsets (commit_phase_one env_ok (world_commit True) 9 (Some 10) [10]) = [512]
   \<and> map (run_dbfile (commit_phase_one env_ok (world_commit True) 9 (Some 10) [10]))
         [24, 25, 26, 27] = [Some 0, Some 0, Some 0, Some 5]
   \<and> map (dbfile (world_commit True)) [24, 25, 26, 27] = [Some 0, Some 0, Some 0, Some 5]"
proof -
  have c1: "exclusiveMode (pager (world_commit True))"
    and c2: "changeCountDone (pager (world_commit True))"
    and c3: "dirty_chain (pages (world_commit True)) (Some 10) [10]"
    by (simp_all add: example_defs commit_eval_simps)
  have c4: "run_result (commit_phase_one env_ok (world_commit True) 9 (Some 10) [10])
            = Some SQLITE_OK"
    by (simp add: eval_simps example_defs commit_eval_simps)
  have c5: "run_write_offsets (commit_phase_one env_ok (world_commit True) 9 (Some 10) [10])
            = [512]"
    by (simp add: eval_simps example_defs commit_eval_simps)
  have c6: "map (run_dbfile (commit_phase_one env_ok (world_commit True) 9 (Some 10) [10]))
         [24, 25, 26, 27] = [Some 0, Some 0, Some 0, Some 5]"
    by (simp add: eval_simps example_defs commit_eval_simps)
  have c7: "map (dbfile (world_commit True)) [24, 25, 26, 27]
            = [Some 0, Some 0, Some 0, Some 5]"
    by (simp add: commit_eval_simps)
  show ?thesis using c1 c2 c3 c4 c5 c6 c7 by (intro conjI)
qed

text \<open>The same transaction in normal locking mode writes page 1 too, with the counter at 6.\<close>

lemma commit_normal_example:
  "run_result (commit_phase_one env_ok (world_commit False) 9 (Some 10) [10]) = Some SQLITE_OK
   \<and> run_write_offsets (commit_phase_one env_ok (world_commit False) 9 (Some 10) [10]) = [0, 512]
   \<and> map (run_dbfile (commit_phase_one env_ok (world_commit False) 9 (Some 10) [10]))
         [24, 25, 26, 27] = [Some 0, Some 0, Some 0, Some 6]"
proof -
  have c1: "run_result (commit_phase_one env_ok (world_commit False) 9 (Some 10) [10])
            = Some SQLITE_OK"
    by (simp add: eval_simps example_defs commit_eval_simps)
  have c2: "run_write_offsets (commit_phase_one env_ok (world_commit False) 9 (Some 10) [10])
            = [0, 512]"
    by (simp add: eval_simps example_defs commit_eval_simps)
  have c3: "map (run_dbfile (commit_phase_one env_ok (world_commit False) 9 (Some 10) [10]))
         [24, 25, 26, 27] = [Some 0, Some 0, Some 0, Some 6]"
    by (simp add: eval_simps example_defs commit_eval_simps nth_append)
  show ?thesis using c1 c2 c3 by (intro conjI)
qed

text \<open>
  Claim C8, amended. In rollback mode without a codec, with pages of at least 28 bytes, the
  cached \<^verbatim>\<open>dbFileVers\<close> equal to bytes 24-27 on disk, page 1 within \<open>dbSize\<close> and not marked
  \<^verbatim>\<open>PGHDR_DONT_WRITE\<close>, and no entry for page 1 in the dirty list other than the entry at \<open>a1\<close>:
  commit phase one of a transaction with a non-empty dirty list returns; if it returns
  \<^verbatim>\<open>SQLITE_OK\<close> and \<^verbatim>\<open>changeCountDone\<close> was clear (always in normal locking mode, and for the first
  commit under the lock in exclusive-locking mode) or the transaction has modified page 1
  itself, then bytes 24-27 of page 1 on disk are the big-endian cached counter plus one, and
  differ from their value before the transaction; if \<^verbatim>\<open>changeCountDone\<close> was set and the
  transaction has not modified page 1, bytes 24-27 on disk are unchanged.
\<close>

theorem commit_advances_change_counter:
  assumes "dirty_chain (pages w) pList as" and "as \<noteq> []"
    and "pages w a1 = Some pg1" and "pgno pg1 = 1" and "PGHDR_DONT_WRITE \<notin> flags pg1"
    and "1 \<le> dbSize (pager w)"
    and "filter (is_page1 w) (remove1 a1 as) = []"
    and "xCodec e = None"
    and "28 \<le> sint (pageSize (pager w))" and "28 \<le> length (pData pg1)"
    and "4 \<le> length (dbFileVers (pager w))"
    and "map (dbfile w) [24, 25, 26, 27] = map Some (take 4 (dbFileVers (pager w)))"
  shows "\<exists>r w'. commit_phase_one e w a1 pList as = Some (r, w')
           \<and> (r = SQLITE_OK \<and> (\<not> changeCountDone (pager w) \<or> a1 \<in> set as) \<longrightarrow>
                map (dbfile w') [24, 25, 26, 27]
                  = map Some (put32bits (sqlite3Get4byte (dbFileVers (pager w)) + 1))
                \<and> map (dbfile w') [24, 25, 26, 27] \<noteq> map (dbfile w) [24, 25, 26, 27])
           \<and> (changeCountDone (pager w) \<and> a1 \<notin> set as \<longrightarrow>
                map (dbfile w') [24, 25, 26, 27] = map (dbfile w) [24, 25, 26, 27])"
proof -
  obtain w1 l where inc: "pager_incr_changecounter w a1 pList as = (w1, l)"
    by (cases "pager_incr_changecounter w a1 pList as")
  note F = incr_changecounter_facts [OF inc assms(1,3)]
  let ?L = "if changeCountDone (pager w) \<or> a1 \<in> set as then as else a1 # as"
  have ne: "?L \<noteq> []" using assms(2) by simp
  then obtain x xs where L: "?L = x # xs" by (cases ?L) simp_all
  have ch: "dirty_chain (pages w1) l (x # xs)" using F(8) unfolding L .
  from pager_write_pagelist_Some [OF ch] obtain r w' where
    res: "pager_write_pagelist e w1 l = Some (r, w')" by blast
  have c: "commit_phase_one e w a1 pList as = Some (r, w')"
    using inc res by (simp add: commit_phase_one_def)
  have p1: "is_page1 w a1" using assms(3,4) by (simp add: is_page1_def)
  have pt: "passes_write_test w a1" using assms(3-6) by (simp add: passes_write_test_def)
  have pd: "28 \<le> length (pg_data w a1)" using assms(3,10) by (simp add: pg_data_def)
  have part1: "r = SQLITE_OK \<and> (\<not> changeCountDone (pager w) \<or> a1 \<in> set as) \<longrightarrow>
                map (dbfile w') [24, 25, 26, 27]
                  = map Some (put32bits (sqlite3Get4byte (dbFileVers (pager w)) + 1))
                \<and> map (dbfile w') [24, 25, 26, 27] \<noteq> map (dbfile w) [24, 25, 26, 27]"
  proof
    assume h: "r = SQLITE_OK \<and> (\<not> changeCountDone (pager w) \<or> a1 \<in> set as)"
    then have res': "pager_write_pagelist e w1 l = Some (SQLITE_OK, w')" using res by simp
    have in': "a1 \<in> set ?L" using h by auto
    have len: "length (filter (is_page1 w) ?L) \<le> 1"
    proof (cases "a1 \<in> set as")
      case True
      then show ?thesis using filter_remove1_le [OF assms(7)] by simp
    next
      case False
      then have "remove1 a1 as = as" by (rule remove1_idem)
      then have "filter (is_page1 w) as = []" using assms(7) by simp
      then show ?thesis using p1 by simp
    qed
    have "map (dbfile w') [24, 25, 26, 27]
         = map Some (put32bits (sqlite3Get4byte (dbFileVers (pager w1)) + 1))"
      by (rule pager_write_pagelist_counter [OF F(8) res' in'])
         (use p1 pt len assms(8,9) pd in \<open>simp_all only: F\<close>)
    then have e1: "map (dbfile w') [24, 25, 26, 27]
         = map Some (put32bits (sqlite3Get4byte (dbFileVers (pager w)) + 1))"
      unfolding F(4) .
    have "map Some (put32bits (sqlite3Get4byte (dbFileVers (pager w)) + 1))
          \<noteq> map Some (take 4 (dbFileVers (pager w)))"
      using put32bits_succ_differs [OF assms(11)] by (simp add: map_eq_conv inj_map_eq_map)
    then have e2: "map (dbfile w') [24, 25, 26, 27] \<noteq> map (dbfile w) [24, 25, 26, 27]"
      unfolding e1 assms(12) .
    from e1 e2 show "map (dbfile w') [24, 25, 26, 27]
                  = map Some (put32bits (sqlite3Get4byte (dbFileVers (pager w)) + 1))
                \<and> map (dbfile w') [24, 25, 26, 27] \<noteq> map (dbfile w) [24, 25, 26, 27]" ..
  qed
  have part2: "changeCountDone (pager w) \<and> a1 \<notin> set as \<longrightarrow>
                map (dbfile w') [24, 25, 26, 27] = map (dbfile w) [24, 25, 26, 27]"
  proof
    assume h: "changeCountDone (pager w) \<and> a1 \<notin> set as"
    then have w1: "w1 = w" using F(9) by simp
    have ch': "dirty_chain (pages w) l as" using F(8) h unfolding w1 by simp
    have res': "pager_write_pagelist e w l = Some (r, w')" using res unfolding w1 .
    have "remove1 a1 as = as" using h by (simp add: remove1_idem)
    then have none: "filter (is_page1 w) as = []" using assms(7) by simp
    have fr: "\<And>x. x < 28 \<Longrightarrow> dbfile w' x = dbfile w x"
    proof -
      fix x :: int assume x: "x < 28"
      have "\<forall>b \<in> set as. passes_write_test w b \<longrightarrow>
           \<not> (sint (page_offset w b) \<le> x
               \<and> x < sint (page_offset w b) + sint (pageSize (pager w)))"
      proof (intro ballI impI)
        fix b assume b: "b \<in> set as" and p: "passes_write_test w b"
        have n1: "\<not> is_page1 w b"
        proof
          assume "is_page1 w b"
          then have "b \<in> set (filter (is_page1 w) as)" using b by simp
          with none show False by simp
        qed
        have "sint (pageSize (pager w)) \<le> sint (page_offset w b)"
          using other_page_offset [OF p n1] assms(9) by simp
        then show "\<not> (sint (page_offset w b) \<le> x
               \<and> x < sint (page_offset w b) + sint (pageSize (pager w)))"
          using x assms(9) by simp
      qed
      from pager_write_pagelist_dbfile_frame [OF ch' res' this] show "dbfile w' x = dbfile w x" .
    qed
    show "map (dbfile w') [24, 25, 26, 27] = map (dbfile w) [24, 25, 26, 27]"
      using fr [of 24] fr [of 25] fr [of 26] fr [of 27] by simp
  qed
  from c part1 part2 show ?thesis by blast
qed

theorem commit_advances_change_counter_witness:
  "dirty_chain (pages (world_commit False)) (Some 10) [10] \<and> [10 :: addr] \<noteq> []
   \<and> pages (world_commit False) 9 = Some (page1_example {})
   \<and> pgno (page1_example {}) = 1 \<and> PGHDR_DONT_WRITE \<notin> flags (page1_example {})
   \<and> 1 \<le> dbSize (pager (world_commit False))
   \<and> filter (is_page1 (world_commit False)) (remove1 9 [10]) = []
   \<and> xCodec env_ok = None
   \<and> 28 \<le> sint (pageSize (pager (world_commit False)))
   \<and> 28 \<le> length (pData (page1_example {}))
   \<and> 4 \<le> length (dbFileVers (pager (world_commit False)))
   \<and> map (dbfile (world_commit False)) [24, 25, 26, 27]
       = map Some (take 4 (dbFileVers (pager (world_commit False))))
   \<and> \<not> changeCountDone (pager (world_commit False))
   \<and> (\<exists>r w'. commit_phase_one env_ok (world_commit False) 9 (Some 10) [10] = Some (r, w')
         \<and> (r = SQLITE_OK \<longrightarrow>
               map (dbfile w') [24, 25, 26, 27]
                 = map Some (put32bits
                     (sqlite3Get4byte (dbFileVers (pager (world_commit False))) + 1))
               \<and> map (dbfile w') [24, 25, 26, 27]
                   \<noteq> map (dbfile (world_commit False)) [24, 25, 26, 27]))"
proof -
  let ?w = "world_commit False"
  have h1: "dirty_chain (pages ?w) (Some 10) [10]" by (simp add: example_defs commit_eval_simps)
  have h2: "[10 :: addr] \<noteq> []" by simp
  have h3: "pages ?w 9 = Some (page1_example {})" by (simp add: world_commit_def)
  have h4: "pgno (page1_example {}) = 1" by (simp add: page1_example_def)
  have h5: "PGHDR_DONT_WRITE \<notin> flags (page1_example {})" by (simp add: page1_example_def)
  have h6: "1 \<le> dbSize (pager ?w)" by (simp add: world_commit_def pager_example_def)
  have h7: "filter (is_page1 ?w) (remove1 9 [10]) = []"
    by (simp add: world_commit_def is_page1_def page_example_def)
  have h8: "xCodec env_ok = None" by (simp add: env_ok_def)
  have h9: "28 \<le> sint (pageSize (pager ?w))" by (simp add: world_commit_def pager_example_def)
  have h10: "28 \<le> length (pData (page1_example {}))" by (simp add: page1_example_def)
  have h11: "4 \<le> length (dbFileVers (pager ?w))" by (simp add: world_commit_def pager_example_def)
  have h12: "map (dbfile ?w) [24, 25, 26, 27] = map Some (take 4 (dbFileVers (pager ?w)))"
    by (simp add: world_commit_def pager_example_def)
  have h13: "\<not> changeCountDone (pager ?w)" by (simp add: world_commit_def pager_example_def)
  from commit_advances_change_counter [OF h1 h2 h3 h4 h5 h6 h7 h8 h9 h10 h11 h12]
  obtain r w' where
    c: "commit_phase_one env_ok ?w 9 (Some 10) [10] = Some (r, w')"
    and d: "r = SQLITE_OK \<and> (\<not> changeCountDone (pager ?w) \<or> 9 \<in> set [10 :: addr]) \<longrightarrow>
                map (dbfile w') [24, 25, 26, 27]
                  = map Some (put32bits (sqlite3Get4byte (dbFileVers (pager ?w)) + 1))
                \<and> map (dbfile w') [24, 25, 26, 27] \<noteq> map (dbfile ?w) [24, 25, 26, 27]"
    by blast
  have "\<exists>r w'. commit_phase_one env_ok ?w 9 (Some 10) [10] = Some (r, w')
         \<and> (r = SQLITE_OK \<longrightarrow>
               map (dbfile w') [24, 25, 26, 27]
                 = map Some (put32bits (sqlite3Get4byte (dbFileVers (pager ?w)) + 1))
               \<and> map (dbfile w') [24, 25, 26, 27] \<noteq> map (dbfile ?w) [24, 25, 26, 27])"
    using c d h13 by blast
  with h1 h2 h3 h4 h5 h6 h7 h8 h9 h10 h11 h12 h13 show ?thesis by (intro conjI)
qed
end
